theory Spec2Isabelle
  imports Main "HOL-Library.Word" "HOL-Library.Char_ord" "HOL-Library.List_Lexorder"
begin

unbundle bit_operations_syntax

section \<open>Common types (types.hpp, error.hpp)\<close>

text \<open>
  \<open>Word\<close> and \<open>Address\<close> are both \<open>uint16_t\<close>. A \<open>size_t\<close> that is a program counter,
  a return address or a breakpoint of the VM engine is a 64-bit word; the statistics
  counters are \<open>uint64_t\<close>. Line numbers and container sizes, which the code only counts
  upwards from zero over data that is in memory, are natural numbers.
\<close>

type_synonym Word = "16 word"
type_synonym Address = "16 word"

datatype ErrorCategory = PARSE_ERROR | RUNTIME_ERROR | LOGIC_ERROR | FILE_ERROR | INTERNAL_ERROR

text \<open>\<open>N2TError(category, file, line, message)\<close>; the subclasses only fix the category.\<close>

datatype N2TError = N2TError ErrorCategory string nat string

definition ParseError :: "string \<Rightarrow> nat \<Rightarrow> string \<Rightarrow> N2TError" where
  "ParseError file line message = N2TError PARSE_ERROR file line message"

definition RuntimeError :: "string \<Rightarrow> N2TError" where
  "RuntimeError message = N2TError RUNTIME_ERROR [] 0 message"

definition InternalError :: "string \<Rightarrow> N2TError" where
  "InternalError message = N2TError INTERNAL_ERROR [] 0 message"

fun error_category_to_string :: "ErrorCategory \<Rightarrow> string" where
  "error_category_to_string PARSE_ERROR = ''Parse Error''"
| "error_category_to_string RUNTIME_ERROR = ''Runtime Error''"
| "error_category_to_string LOGIC_ERROR = ''Logic Error''"
| "error_category_to_string FILE_ERROR = ''File Error''"
| "error_category_to_string INTERNAL_ERROR = ''Internal Error''"

text \<open>\<open>std::to_string\<close> on an unsigned value: its decimal digits.\<close>

definition digit_char :: "nat \<Rightarrow> char" where
  "digit_char d = ''0123456789'' ! d"

function to_string :: "nat \<Rightarrow> string" where
  "to_string n = (if n < 10 then [digit_char n] else to_string (n div 10) @ [digit_char (n mod 10)])"
  by pat_completeness auto
termination
  by (relation "measure id") auto

declare to_string.simps [simp del]

text \<open>The message \<open>what()\<close> returns, built by the constructor of \<open>N2TError\<close>.\<close>

fun what :: "N2TError \<Rightarrow> string" where
  "what (N2TError category file line message) =
     error_category_to_string category
     @ (if file \<noteq> [] then '' in '' @ file @ (if line > 0 then '':'' @ to_string line else []) else [])
     @ '' - '' @ message"


fun error_line :: "N2TError \<Rightarrow> nat" where
  "error_line (N2TError category file line message) = line"



section \<open>Instruction decoder (instruction.hpp, instruction.cpp)\<close>

datatype InstructionType = A_INSTRUCTION | C_INSTRUCTION

text \<open>
  \<open>Computation\<close> and \<open>JumpCondition\<close> are enums over \<open>uint8_t\<close> whose enumerators are
  the bit patterns themselves; the decoder casts the extracted bits to them, so a value
  of either is any 8-bit word.
\<close>

type_synonym Computation = "8 word"
type_synonym JumpCondition = "8 word"

record Destination =
  dest_a :: bool
  dest_d :: bool
  dest_m :: bool

record DecodedInstruction =
  itype :: InstructionType
  ivalue :: Word
  comp :: Computation
  dest :: Destination
  jump :: JumpCondition
  reads_memory :: bool

text \<open>\<open>DecodedInstruction decoded{}\<close>: every field value-initialised.\<close>

definition decoded_zero :: DecodedInstruction where
  "decoded_zero = \<lparr>itype = A_INSTRUCTION, ivalue = 0, comp = 0,
     dest = \<lparr>dest_a = False, dest_d = False, dest_m = False\<rparr>, jump = 0, reads_memory = False\<rparr>"

definition decode_instruction :: "Word \<Rightarrow> DecodedInstruction" where
  "decode_instruction instruction =
     (if instruction AND 0x8000 = 0 then
        decoded_zero\<lparr>itype := A_INSTRUCTION, ivalue := instruction AND 0x7FFF, reads_memory := False\<rparr>
      else
        (let comp_bits = (ucast (drop_bit 6 instruction AND 0x7F) :: 8 word);
             dest_bits = (ucast (drop_bit 3 instruction AND 0x7) :: 8 word);
             jump_bits = (ucast (instruction AND 0x7) :: 8 word)
         in decoded_zero\<lparr>itype := C_INSTRUCTION, ivalue := 0,
              comp := comp_bits,
              dest := \<lparr>dest_a = (dest_bits AND 0x4 \<noteq> 0),
                       dest_d = (dest_bits AND 0x2 \<noteq> 0),
                       dest_m = (dest_bits AND 0x1 \<noteq> 0)\<rparr>,
              jump := jump_bits,
              reads_memory := (comp_bits AND 0x40 \<noteq> 0)\<rparr>))"


section \<open>CPU memory (memory.hpp, memory.cpp)\<close>

text \<open>
  \<open>rom_\<close> and \<open>ram_\<close> are \<open>std::array<Word, 32768>\<close>. The model keeps each as a
  function from the index to the stored word. An index outside \<open>[0, 32768)\<close> is outside
  the array in the source; \<open>read_ram\<close>, \<open>write_ram\<close> and \<open>read_rom\<close> check it, and
  the pixel functions compute an index inside the screen range.
\<close>

abbreviation (input) ROM_SIZE :: nat where "ROM_SIZE \<equiv> 32768"
abbreviation (input) RAM_SIZE :: nat where "RAM_SIZE \<equiv> 32768"
abbreviation (input) SCREEN_BASE :: int where "SCREEN_BASE \<equiv> 16384"
abbreviation (input) SCREEN_SIZE :: int where "SCREEN_SIZE \<equiv> 8192"

record CPUMemory =
  rom :: "nat \<Rightarrow> Word"
  ram :: "int \<Rightarrow> Word"
  program_size :: nat
  screen_dirty :: bool


text \<open>The constructor calls \<open>reset()\<close>.\<close>

definition CPUMemory_new :: CPUMemory where
  "CPUMemory_new = \<lparr>rom = (\<lambda>_. 0), ram = (\<lambda>_. 0), program_size = 0, screen_dirty = False\<rparr>"

text \<open>
  The lines \<open>std::getline\<close> yields from the text, one after the other: a line ends at a
  newline, which is dropped; characters after the last newline form a last line; nothing
  after the last newline yields no further line.
\<close>

fun getlines_from :: "string \<Rightarrow> string \<Rightarrow> string list" where
  "getlines_from cur [] = (if cur = [] then [] else [cur])"
| "getlines_from cur (c # cs) =
     (if c = CHR 0x0A then cur # getlines_from [] cs else getlines_from (cur @ [c]) cs)"

definition getlines :: "string \<Rightarrow> string list" where
  "getlines text = getlines_from [] text"

text \<open>The loop that pops \<open>'\r'\<close>, \<open>' '\<close> and \<open>'\t'\<close> off the back of the line.\<close>

definition is_trailing_space :: "char \<Rightarrow> bool" where
  "is_trailing_space c = (c = CHR 0x0D \<or> c = CHR '' '' \<or> c = CHR 0x09)"

function trim_trailing :: "string \<Rightarrow> string" where
  "trim_trailing line =
     (if line \<noteq> [] \<and> is_trailing_space (last line) then trim_trailing (butlast line) else line)"
  by pat_completeness auto
termination
  by (relation "measure length") auto

declare trim_trailing.simps [simp del]

text \<open>
  \<open>parse_binary_line\<close> and its two messages; \<open>parse_bits\<close> is the loop over the 16
  characters, \<open>i\<close> being the index of the head of the remaining characters.
\<close>

definition invalid_character_message :: "char \<Rightarrow> nat \<Rightarrow> string" where
  "invalid_character_message c position =
     ''Invalid character '' @ [CHR 0x27, c, CHR 0x27] @ '' at position '' @ to_string position
     @ ''. Only '' @ [CHR 0x27] @ ''0'' @ [CHR 0x27] @ '' and '' @ [CHR 0x27] @ ''1'' @ [CHR 0x27]
     @ '' are allowed in .hack files.''"

definition wrong_length_message :: "string \<Rightarrow> string" where
  "wrong_length_message line =
     ''Expected 16-bit binary instruction (16 characters of '' @ [CHR 0x27] @ ''0'' @ [CHR 0x27]
     @ '' and '' @ [CHR 0x27] @ ''1'' @ [CHR 0x27] @ ''), got '' @ to_string (length line)
     @ '' characters: '' @ [CHR 0x22] @ line @ [CHR 0x22]"

fun parse_bits :: "string \<Rightarrow> nat \<Rightarrow> nat \<Rightarrow> Word \<Rightarrow> N2TError + Word" where
  "parse_bits [] line_number i result = Inr result"
| "parse_bits (c # cs) line_number i result =
     (if c = CHR ''1'' then parse_bits cs line_number (i + 1) (result OR push_bit (15 - i) 1)
      else if c \<noteq> CHR ''0'' then
        Inl (ParseError ''<rom>'' line_number (invalid_character_message c (i + 1)))
      else parse_bits cs line_number (i + 1) result)"

definition parse_binary_line :: "string \<Rightarrow> nat \<Rightarrow> N2TError + Word" where
  "parse_binary_line line line_number =
     (if length line \<noteq> 16 then Inl (ParseError ''<rom>'' line_number (wrong_length_message line))
      else parse_bits line line_number 0 0)"

text \<open>
  \<open>load_rom_string\<close>: the body of the \<open>while (std::getline ...)\<close> loop, over the lines
  that remain; \<open>line_number\<close> is the counter before its increment. A throw leaves the
  memory as loaded so far; the model returns the error alone.
\<close>

fun load_rom_lines :: "string list \<Rightarrow> nat \<Rightarrow> CPUMemory \<Rightarrow> N2TError + CPUMemory" where
  "load_rom_lines [] line_number m = Inr m"
| "load_rom_lines (l # ls) line_number m =
     (let line = trim_trailing l in
      if line = [] then load_rom_lines ls (line_number + 1) m
      else if program_size m \<ge> ROM_SIZE then
        Inl (ParseError ''<rom>'' (line_number + 1)
              (''Program too large! ROM can hold at most '' @ to_string ROM_SIZE @ '' instructions.''))
      else (case parse_binary_line line (line_number + 1) of
              Inl e \<Rightarrow> Inl e
            | Inr w \<Rightarrow> load_rom_lines ls (line_number + 1)
                        (m\<lparr>rom := (rom m)(program_size m := w), program_size := program_size m + 1\<rparr>)))"

definition load_rom_string :: "string \<Rightarrow> CPUMemory \<Rightarrow> N2TError + CPUMemory" where
  "load_rom_string hack_text m =
     load_rom_lines (getlines hack_text) 0 (m\<lparr>rom := (\<lambda>_. 0), program_size := 0\<rparr>)"

definition load_rom :: "Word list \<Rightarrow> CPUMemory \<Rightarrow> N2TError + CPUMemory" where
  "load_rom instructions m =
     (if length instructions > ROM_SIZE then
        Inl (RuntimeError (''Program too large! ROM can hold at most '' @ to_string ROM_SIZE
               @ '' instructions, got '' @ to_string (length instructions) @ ''.''))
      else Inr (m\<lparr>rom := fold (\<lambda>i r. r(i := instructions ! i)) [0..<length instructions] (\<lambda>_. 0),
                 program_size := length instructions\<rparr>))"

definition read_rom :: "CPUMemory \<Rightarrow> Address \<Rightarrow> N2TError + Word" where
  "read_rom m address =
     (if unat address \<ge> ROM_SIZE then
        Inl (RuntimeError (''ROM access out of bounds: address '' @ to_string (unat address)
               @ ''. Valid range is 0-'' @ to_string (ROM_SIZE - 1) @ ''.''))
      else Inr (rom m (unat address)))"

definition read_ram :: "CPUMemory \<Rightarrow> Address \<Rightarrow> N2TError + Word" where
  "read_ram m address =
     (if unat address \<ge> RAM_SIZE then
        Inl (RuntimeError (''Cannot read RAM at address '' @ to_string (unat address)
               @ ''. Valid range is 0-32767 (32K). The A register may contain an out-of-bounds value.''))
      else Inr (ram m (uint address)))"

definition write_ram :: "CPUMemory \<Rightarrow> Address \<Rightarrow> Word \<Rightarrow> N2TError + CPUMemory" where
  "write_ram m address v =
     (if unat address \<ge> RAM_SIZE then
        Inl (RuntimeError (''Cannot write to RAM at address '' @ to_string (unat address)
               @ ''. Valid range is 0-32767 (32K). The A register may contain an out-of-bounds value.''))
      else (let m1 = m\<lparr>ram := (ram m)(uint address := v)\<rparr> in
            if uint address \<ge> SCREEN_BASE \<and> uint address < SCREEN_BASE + SCREEN_SIZE
            then Inr (m1\<lparr>screen_dirty := True\<rparr>) else Inr m1))"

text \<open>
  The pixel functions take C++ \<open>int\<close> coordinates. Inside the guard \<open>x\<close> and \<open>y\<close> are
  not negative, so \<open>/\<close> and \<open>%\<close> are \<open>div\<close> and \<open>mod\<close>, and nothing overflows.
\<close>

definition get_pixel :: "CPUMemory \<Rightarrow> int \<Rightarrow> int \<Rightarrow> bool" where
  "get_pixel m x y =
     (if x < 0 \<or> x \<ge> 512 \<or> y < 0 \<or> y \<ge> 256 then False
      else (let word_offset = (y * 32) + (x div 16);
                bit_offset = x mod 16;
                w = ram m (SCREEN_BASE + word_offset)
            in (drop_bit (nat bit_offset) w) AND 1 \<noteq> 0))"

definition set_pixel :: "CPUMemory \<Rightarrow> int \<Rightarrow> int \<Rightarrow> bool \<Rightarrow> CPUMemory" where
  "set_pixel m x y on =
     (if x < 0 \<or> x \<ge> 512 \<or> y < 0 \<or> y \<ge> 256 then m
      else (let word_offset = (y * 32) + (x div 16);
                bit_offset = x mod 16;
                addr = SCREEN_BASE + word_offset;
                w = (if on then ram m addr OR push_bit (nat bit_offset) 1
                     else ram m addr AND NOT (push_bit (nat bit_offset) 1))
            in m\<lparr>ram := (ram m)(addr := w), screen_dirty := True\<rparr>))"

section \<open>CPU engine (cpu.hpp, cpu.cpp)\<close>

datatype CPUState = CPU_READY | CPU_RUNNING | CPU_PAUSED | CPU_HALTED | CPU_ERROR

datatype CPUPauseReason = CPU_NONE | CPU_STEP_COMPLETE | CPU_BREAKPOINT | CPU_USER_REQUEST

record CPUStats =
  instructions_executed :: "64 word"
  a_instruction_count :: "64 word"
  c_instruction_count :: "64 word"
  jump_count :: "64 word"
  memory_reads :: "64 word"
  memory_writes :: "64 word"

definition CPUStats_reset :: CPUStats where
  "CPUStats_reset = \<lparr>instructions_executed = 0, a_instruction_count = 0, c_instruction_count = 0,
     jump_count = 0, memory_reads = 0, memory_writes = 0\<rparr>"

record CPUEngine =
  a_register :: Word
  d_register :: Word
  pc :: Address
  memory :: CPUMemory
  state :: CPUState
  pause_reason :: CPUPauseReason
  pause_requested :: bool
  stats :: CPUStats
  breakpoints :: "Address set"
  error_message :: string
  error_location :: Address

text \<open>The default-constructed engine.\<close>

definition CPUEngine_new :: CPUEngine where
  "CPUEngine_new = \<lparr>a_register = 0, d_register = 0, pc = 0, memory = CPUMemory_new,
     state = CPU_READY, pause_reason = CPU_NONE, pause_requested = False, stats = CPUStats_reset,
     breakpoints = {}, error_message = [], error_location = 0\<rparr>"


definition CPUEngine_load :: "Word list \<Rightarrow> CPUEngine \<Rightarrow> N2TError + CPUEngine" where
  "CPUEngine_load instructions s =
     (case load_rom instructions (memory s) of
        Inl e \<Rightarrow> Inl e
      | Inr m \<Rightarrow> Inr (s\<lparr>memory := m, state := CPU_READY, pc := 0, a_register := 0, d_register := 0,
                        stats := CPUStats_reset\<rparr>))"


definition CPUEngine_add_breakpoint :: "Address \<Rightarrow> CPUEngine \<Rightarrow> CPUEngine" where
  "CPUEngine_add_breakpoint rom_address s = s\<lparr>breakpoints := insert rom_address (breakpoints s)\<rparr>"

definition CPUEngine_clear_breakpoints :: "CPUEngine \<Rightarrow> CPUEngine" where
  "CPUEngine_clear_breakpoints s = s\<lparr>breakpoints := {}\<rparr>"

text \<open>The enumerators of \<open>Computation\<close>.\<close>

abbreviation (input) COMP_ZERO :: Computation where "COMP_ZERO \<equiv> 0x2A"
abbreviation (input) COMP_ONE :: Computation where "COMP_ONE \<equiv> 0x3F"
abbreviation (input) COMP_NEG_ONE :: Computation where "COMP_NEG_ONE \<equiv> 0x3A"
abbreviation (input) COMP_D :: Computation where "COMP_D \<equiv> 0x0C"
abbreviation (input) COMP_A :: Computation where "COMP_A \<equiv> 0x30"
abbreviation (input) COMP_NOT_D :: Computation where "COMP_NOT_D \<equiv> 0x0D"
abbreviation (input) COMP_NOT_A :: Computation where "COMP_NOT_A \<equiv> 0x31"
abbreviation (input) COMP_NEG_D :: Computation where "COMP_NEG_D \<equiv> 0x0F"
abbreviation (input) COMP_NEG_A :: Computation where "COMP_NEG_A \<equiv> 0x33"
abbreviation (input) COMP_D_PLUS_1 :: Computation where "COMP_D_PLUS_1 \<equiv> 0x1F"
abbreviation (input) COMP_A_PLUS_1 :: Computation where "COMP_A_PLUS_1 \<equiv> 0x37"
abbreviation (input) COMP_D_MINUS_1 :: Computation where "COMP_D_MINUS_1 \<equiv> 0x0E"
abbreviation (input) COMP_A_MINUS_1 :: Computation where "COMP_A_MINUS_1 \<equiv> 0x32"
abbreviation (input) COMP_D_PLUS_A :: Computation where "COMP_D_PLUS_A \<equiv> 0x02"
abbreviation (input) COMP_D_MINUS_A :: Computation where "COMP_D_MINUS_A \<equiv> 0x13"
abbreviation (input) COMP_A_MINUS_D :: Computation where "COMP_A_MINUS_D \<equiv> 0x07"
abbreviation (input) COMP_D_AND_A :: Computation where "COMP_D_AND_A \<equiv> 0x00"
abbreviation (input) COMP_D_OR_A :: Computation where "COMP_D_OR_A \<equiv> 0x15"
abbreviation (input) COMP_M :: Computation where "COMP_M \<equiv> 0x70"
abbreviation (input) COMP_NOT_M :: Computation where "COMP_NOT_M \<equiv> 0x71"
abbreviation (input) COMP_NEG_M :: Computation where "COMP_NEG_M \<equiv> 0x73"
abbreviation (input) COMP_M_PLUS_1 :: Computation where "COMP_M_PLUS_1 \<equiv> 0x77"
abbreviation (input) COMP_M_MINUS_1 :: Computation where "COMP_M_MINUS_1 \<equiv> 0x72"
abbreviation (input) COMP_D_PLUS_M :: Computation where "COMP_D_PLUS_M \<equiv> 0x42"
abbreviation (input) COMP_D_MINUS_M :: Computation where "COMP_D_MINUS_M \<equiv> 0x53"
abbreviation (input) COMP_M_MINUS_D :: Computation where "COMP_M_MINUS_D \<equiv> 0x47"
abbreviation (input) COMP_D_AND_M :: Computation where "COMP_D_AND_M \<equiv> 0x40"
abbreviation (input) COMP_D_OR_M :: Computation where "COMP_D_OR_M \<equiv> 0x55"

text \<open>
  \<open>compute_alu\<close> works on \<open>int16_t\<close> copies of its operands and casts the result back;
  on 16-bit words that is the wrapping arithmetic. The first argument is the \<open>pc_\<close> the
  error message cites.
\<close>

definition compute_alu :: "Address \<Rightarrow> Computation \<Rightarrow> Word \<Rightarrow> Word \<Rightarrow> N2TError + Word" where
  "compute_alu pc_now c d am =
     (if c = COMP_ZERO then Inr 0
      else if c = COMP_ONE then Inr 1
      else if c = COMP_NEG_ONE then Inr (- 1)
      else if c = COMP_D then Inr d
      else if c = COMP_A \<or> c = COMP_M then Inr am
      else if c = COMP_NOT_D then Inr (NOT d)
      else if c = COMP_NOT_A \<or> c = COMP_NOT_M then Inr (NOT am)
      else if c = COMP_NEG_D then Inr (- d)
      else if c = COMP_NEG_A \<or> c = COMP_NEG_M then Inr (- am)
      else if c = COMP_D_PLUS_1 then Inr (d + 1)
      else if c = COMP_A_PLUS_1 \<or> c = COMP_M_PLUS_1 then Inr (am + 1)
      else if c = COMP_D_MINUS_1 then Inr (d - 1)
      else if c = COMP_A_MINUS_1 \<or> c = COMP_M_MINUS_1 then Inr (am - 1)
      else if c = COMP_D_PLUS_A \<or> c = COMP_D_PLUS_M then Inr (d + am)
      else if c = COMP_D_MINUS_A \<or> c = COMP_D_MINUS_M then Inr (d - am)
      else if c = COMP_A_MINUS_D \<or> c = COMP_M_MINUS_D then Inr (am - d)
      else if c = COMP_D_AND_A \<or> c = COMP_D_AND_M then Inr (d AND am)
      else if c = COMP_D_OR_A \<or> c = COMP_D_OR_M then Inr (d OR am)
      else Inl (RuntimeError (''Invalid ALU computation code at ROM['' @ to_string (unat pc_now)
                  @ '']. The instruction may be corrupted.'')))"

definition should_jump :: "JumpCondition \<Rightarrow> Word \<Rightarrow> bool" where
  "should_jump j alu_output =
     (if j = 0 then False
      else if j = 7 then True
      else (sint alu_output < 0 \<and> j AND 0x4 \<noteq> 0)
         \<or> (sint alu_output = 0 \<and> j AND 0x2 \<noteq> 0)
         \<or> (sint alu_output > 0 \<and> j AND 0x1 \<noteq> 0))"

text \<open>
  The C-instruction branch of \<open>execute_instruction\<close>, in its three steps: the ALU
  operand, the destination writes, the jump. \<open>Inl (e, s')\<close> is a throw of \<open>e\<close> with the
  engine as it is at the throw; \<open>Inr\<close> is the engine after the step.
\<close>

definition alu_operand :: "8 word \<Rightarrow> CPUEngine \<Rightarrow> (N2TError \<times> CPUEngine) + (Word \<times> CPUEngine)" where
  "alu_operand comp_bits s =
     (if comp_bits AND 0x40 \<noteq> 0 then
        (case read_ram (memory s) (a_register s) of
           Inl e \<Rightarrow> Inl (e, s)
         | Inr v \<Rightarrow> Inr (v, s\<lparr>stats := (stats s)\<lparr>memory_reads := memory_reads (stats s) + 1\<rparr>\<rparr>))
      else Inr (a_register s, s))"

definition store_result :: "8 word \<Rightarrow> Word \<Rightarrow> CPUEngine \<Rightarrow> (N2TError \<times> CPUEngine) + CPUEngine" where
  "store_result dest_bits alu_output s1 =
     (let original_a = a_register s1;
          s2 = (if dest_bits AND 0x4 \<noteq> 0 then s1\<lparr>a_register := alu_output\<rparr> else s1);
          s3 = (if dest_bits AND 0x2 \<noteq> 0 then s2\<lparr>d_register := alu_output\<rparr> else s2)
      in if dest_bits AND 0x1 \<noteq> 0 then
           (case write_ram (memory s3) original_a alu_output of
              Inl e \<Rightarrow> Inl (e, s3)
            | Inr m \<Rightarrow> Inr (s3\<lparr>memory := m,
                           stats := (stats s3)\<lparr>memory_writes := memory_writes (stats s3) + 1\<rparr>\<rparr>))
         else Inr s3)"

definition jump_or_advance :: "8 word \<Rightarrow> Word \<Rightarrow> CPUEngine \<Rightarrow> CPUEngine" where
  "jump_or_advance jump_bits alu_output s4 =
     (if should_jump jump_bits alu_output
      then s4\<lparr>pc := a_register s4, stats := (stats s4)\<lparr>jump_count := jump_count (stats s4) + 1\<rparr>\<rparr>
      else s4\<lparr>pc := pc s4 + 1\<rparr>)"

definition execute_c_instruction :: "Word \<Rightarrow> CPUEngine \<Rightarrow> (N2TError \<times> CPUEngine) + CPUEngine" where
  "execute_c_instruction raw s =
     (let comp_bits = (ucast (drop_bit 6 raw AND 0x7F) :: 8 word);
          dest_bits = (ucast (drop_bit 3 raw AND 0x7) :: 8 word);
          jump_bits = (ucast (raw AND 0x7) :: 8 word)
      in case alu_operand comp_bits s of
           Inl es \<Rightarrow> Inl es
         | Inr (am_val, s1) \<Rightarrow>
            (case compute_alu (pc s1) comp_bits (d_register s1) am_val of
               Inl e \<Rightarrow> Inl (e, s1)
             | Inr alu_output \<Rightarrow>
                (case store_result dest_bits alu_output s1 of
                   Inl es \<Rightarrow> Inl es
                 | Inr s4 \<Rightarrow>
                    (let s5 = jump_or_advance jump_bits alu_output s4
                     in Inr (s5\<lparr>stats := (stats s5)\<lparr>c_instruction_count :=
                                                c_instruction_count (stats s5) + 1\<rparr>\<rparr>)))))"

text \<open>The \<open>try\<close> block up to, and without, the increment of \<open>instructions_executed\<close>.\<close>

definition fetch_execute :: "CPUEngine \<Rightarrow> (N2TError \<times> CPUEngine) + CPUEngine" where
  "fetch_execute s =
     (let raw = rom (memory s) (unat (pc s))
      in if raw AND 0x8000 = 0 then
           Inr (s\<lparr>a_register := raw AND 0x7FFF, pc := pc s + 1,
                  stats := (stats s)\<lparr>a_instruction_count := a_instruction_count (stats s) + 1\<rparr>\<rparr>)
         else execute_c_instruction raw s)"

definition execute_instruction :: "CPUEngine \<Rightarrow> bool \<times> CPUEngine" where
  "execute_instruction s =
     (if unat (pc s) \<ge> program_size (memory s) then (False, s\<lparr>state := CPU_HALTED\<rparr>)
      else if pause_requested s then
        (False, s\<lparr>pause_requested := False, state := CPU_PAUSED, pause_reason := CPU_USER_REQUEST\<rparr>)
      else if instructions_executed (stats s) > 0 \<and> pc s \<in> breakpoints s then
        (False, s\<lparr>state := CPU_PAUSED, pause_reason := CPU_BREAKPOINT\<rparr>)
      else (case fetch_execute s of
              Inl (e, s1) \<Rightarrow>
                (False, s1\<lparr>error_message := what e, error_location := pc s1, state := CPU_ERROR\<rparr>)
            | Inr s1 \<Rightarrow>
                (let s2 = s1\<lparr>stats := (stats s1)\<lparr>instructions_executed :=
                                                    instructions_executed (stats s1) + 1\<rparr>\<rparr>
                 in if unat (pc s2) \<ge> program_size (memory s2) then (False, s2\<lparr>state := CPU_HALTED\<rparr>)
                    else (True, s2))))"

text \<open>
  The loop of \<open>run()\<close>. A program that never halts keeps the loop running for ever; the
  result is then \<open>None\<close>.
\<close>

partial_function (option) CPUEngine_run_loop :: "CPUEngine \<Rightarrow> CPUEngine option" where
  "CPUEngine_run_loop s =
     (if state s \<noteq> CPU_RUNNING then Some s
      else if fst (execute_instruction s) then CPUEngine_run_loop (snd (execute_instruction s))
      else Some (snd (execute_instruction s)))"

text \<open>\<open>run()\<close> returns \<open>state_\<close>; the model returns the engine, whose \<open>state\<close> that is.\<close>

definition CPUEngine_run :: "CPUEngine \<Rightarrow> CPUEngine option" where
  "CPUEngine_run s =
     (if state s = CPU_READY \<or> state s = CPU_PAUSED then
        CPUEngine_run_loop (s\<lparr>state := CPU_RUNNING, pause_reason := CPU_NONE, pause_requested := False\<rparr>)
      else Some s)"




section \<open>VM commands (types.hpp, vm_command.hpp)\<close>

datatype SegmentType = LOCAL | ARGUMENT | THIS | THAT | CONSTANT | STATIC | TEMP | POINTER

datatype ArithmeticOp = ADD | SUB | NEG | EQ | GT | LT | AND_OP | OR_OP | NOT_OP

text \<open>
  The alternatives of the variant \<open>VMCommand\<close>, each with the fields of its struct in
  their order; the last field is \<open>source_line\<close>.
\<close>

datatype VMCommand =
    ArithmeticCommand ArithmeticOp nat
  | PushCommand SegmentType Word string nat
  | PopCommand SegmentType Word string nat
  | LabelCommand string nat
  | GotoCommand string nat
  | IfGotoCommand string nat
  | FunctionCommand string Word nat
  | CallCommand string Word nat
  | ReturnCommand nat

record VMProgram =
  commands :: "VMCommand list"
  label_positions :: "string \<rightharpoonup> 64 word"
  function_entry_points :: "string \<rightharpoonup> 64 word"
  source_files :: "string list"

section \<open>VM memory (vm_memory.hpp, vm_memory.cpp)\<close>

text \<open>
  \<open>ram_\<close> is \<open>std::array<Word, 32768>\<close>, kept as a function from the index to the word.
  The index of an access is the C++ value of the index expression: \<open>uint sp\<close> for a
  \<open>Word\<close>, \<open>uint frame_ptr - 5\<close> for \<open>frame_ptr - 5\<close>, which C++ computes in \<open>int\<close>.
  \<open>push\<close>, \<open>pop\<close>, the segment accesses and the frame functions index the array without
  a check; an index outside \<open>[0, 32768)\<close> is outside the array in the source, and the
  theorems below state the range of the addresses they rely on.
\<close>

abbreviation (input) VM_SP :: int where "VM_SP \<equiv> 0"
abbreviation (input) VM_LCL :: int where "VM_LCL \<equiv> 1"
abbreviation (input) VM_ARG :: int where "VM_ARG \<equiv> 2"
abbreviation (input) VM_THIS :: int where "VM_THIS \<equiv> 3"
abbreviation (input) VM_THAT :: int where "VM_THAT \<equiv> 4"
abbreviation (input) TEMP_BASE :: Address where "TEMP_BASE \<equiv> 5"
abbreviation (input) TEMP_SIZE :: Address where "TEMP_SIZE \<equiv> 8"
abbreviation (input) STATIC_BASE :: Address where "STATIC_BASE \<equiv> 16"
abbreviation (input) STACK_BASE :: Address where "STACK_BASE \<equiv> 256"
abbreviation (input) STACK_MAX :: Address where "STACK_MAX \<equiv> 2047"

text \<open>
  \<open>CallFrame\<close> without \<open>caller_file\<close> and \<open>caller_line\<close>, which no function of the
  memory or of the engine writes or reads.
\<close>

record CallFrame =
  return_address :: "64 word"
  saved_lcl :: Word
  saved_arg :: Word
  saved_this :: Word
  saved_that :: Word
  function_name :: string
  num_args :: Word
  num_locals :: Word

record VMMemory =
  vm_ram :: "int \<Rightarrow> Word"
  call_stack :: "CallFrame list"
  static_bases :: "string \<rightharpoonup> Address"
  next_static_address :: Address

definition VMMemory_reset :: "VMMemory \<Rightarrow> VMMemory" where
  "VMMemory_reset m = m\<lparr>vm_ram := (\<lambda>_. 0)(VM_SP := STACK_BASE), call_stack := [],
     static_bases := Map.empty, next_static_address := STATIC_BASE\<rparr>"

definition VMMemory_new :: VMMemory where
  "VMMemory_new = \<lparr>vm_ram = (\<lambda>_. 0)(VM_SP := STACK_BASE), call_stack = [],
     static_bases = Map.empty, next_static_address = STATIC_BASE\<rparr>"

definition push :: "Word \<Rightarrow> VMMemory \<Rightarrow> N2TError + VMMemory" where
  "push v m =
     (let sp = vm_ram m VM_SP
      in if sp > STACK_MAX then
           Inl (RuntimeError (''Stack overflow! SP = '' @ to_string (unat sp)
                  @ ''. The stack has exceeded its maximum size (2047). ''
                  @ ''This usually means infinite recursion or too many nested function calls.''))
         else Inr (m\<lparr>vm_ram := ((vm_ram m)(uint sp := v))(VM_SP := sp + 1)\<rparr>))"

definition pop :: "VMMemory \<Rightarrow> N2TError + (Word \<times> VMMemory)" where
  "pop m =
     (let sp = vm_ram m VM_SP
      in if sp \<le> STACK_BASE then
           Inl (RuntimeError (''Stack underflow! Attempted to pop from empty stack. ''
                  @ ''This usually means there'' @ [CHR 0x27] @ ''s a pop without a matching push, ''
                  @ ''or a function returned without pushing a return value.''))
         else (let m1 = m\<lparr>vm_ram := (vm_ram m)(VM_SP := sp - 1)\<rparr>
               in Inr (vm_ram m1 (uint sp - 1), m1)))"

definition calculate_address :: "VMMemory \<Rightarrow> SegmentType \<Rightarrow> Word \<Rightarrow> string \<Rightarrow> N2TError + Address" where
  "calculate_address m segment index file_name =
     (case segment of
        LOCAL \<Rightarrow> Inr (vm_ram m VM_LCL + index)
      | ARGUMENT \<Rightarrow> Inr (vm_ram m VM_ARG + index)
      | THIS \<Rightarrow> Inr (vm_ram m VM_THIS + index)
      | THAT \<Rightarrow> Inr (vm_ram m VM_THAT + index)
      | TEMP \<Rightarrow>
          (if index \<ge> TEMP_SIZE then
             Inl (RuntimeError (''Temp segment index out of bounds: '' @ to_string (unat index)
                    @ ''. Valid range is 0-7.''))
           else Inr (TEMP_BASE + index))
      | STATIC \<Rightarrow>
          (case static_bases m file_name of
             Some base \<Rightarrow> Inr (base + index)
           | None \<Rightarrow> Inl (RuntimeError (''Static segment for file '' @ [CHR 0x27] @ file_name
                                  @ [CHR 0x27] @ '' not initialized'')))
      | POINTER \<Rightarrow>
          (if index > 1 then
             Inl (RuntimeError (''Pointer segment index out of bounds: '' @ to_string (unat index)
                    @ ''. Valid range is 0-1 (0=THIS, 1=THAT).''))
           else Inr (3 + index))
      | CONSTANT \<Rightarrow> Inl (InternalError ''calculate_address called for constant segment''))"

definition read_segment :: "VMMemory \<Rightarrow> SegmentType \<Rightarrow> Word \<Rightarrow> string \<Rightarrow> N2TError + Word" where
  "read_segment m segment index file_name =
     (if segment = CONSTANT then Inr index
      else (case calculate_address m segment index file_name of
              Inl e \<Rightarrow> Inl e
            | Inr addr \<Rightarrow> Inr (vm_ram m (uint addr))))"

definition write_segment :: "VMMemory \<Rightarrow> SegmentType \<Rightarrow> Word \<Rightarrow> Word \<Rightarrow> string \<Rightarrow> N2TError + VMMemory" where
  "write_segment m segment index v file_name =
     (if segment = CONSTANT then
        Inl (RuntimeError (''Cannot write to constant segment. ''
               @ ''Constants are read-only values, not memory locations.''))
      else (case calculate_address m segment index file_name of
              Inl e \<Rightarrow> Inl e
            | Inr addr \<Rightarrow> Inr (m\<lparr>vm_ram := (vm_ram m)(uint addr := v)\<rparr>)))"

definition get_static_base :: "string \<Rightarrow> VMMemory \<Rightarrow> N2TError + (Address \<times> VMMemory)" where
  "get_static_base file_name m =
     (case static_bases m file_name of
        Some base \<Rightarrow> Inr (base, m)
      | None \<Rightarrow>
          (let base = next_static_address m
           in if base \<ge> STACK_BASE then
                Inl (RuntimeError
                      ''Out of static variable space! Too many static variables across all files.'')
              else Inr (base, m\<lparr>static_bases := (static_bases m)(file_name \<mapsto> base),
                                 next_static_address := next_static_address m + 16\<rparr>)))"

text \<open>
  The loop of \<open>push_frame\<close> that zeroes the locals: \<open>k\<close> iterations are left, \<open>sp\<close> is
  the local \<open>Word sp\<close>, which \<open>sp++\<close> wraps at 16 bits.
\<close>

fun zero_locals :: "nat \<Rightarrow> Word \<Rightarrow> (int \<Rightarrow> Word) \<Rightarrow> Word \<times> (int \<Rightarrow> Word)" where
  "zero_locals 0 sp r = (sp, r)"
| "zero_locals (Suc k) sp r = zero_locals k (sp + 1) (r(uint sp := 0))"

definition push_frame :: "64 word \<Rightarrow> string \<Rightarrow> Word \<Rightarrow> Word \<Rightarrow> VMMemory \<Rightarrow> VMMemory" where
  "push_frame ret_address fname n_args n_locals m =
     (let frame = \<lparr>return_address = ret_address,
                    saved_lcl = vm_ram m VM_LCL, saved_arg = vm_ram m VM_ARG,
                    saved_this = vm_ram m VM_THIS, saved_that = vm_ram m VM_THAT,
                    function_name = fname, num_args = n_args, num_locals = n_locals\<rparr>;
          sp = vm_ram m VM_SP;
          r1 = (vm_ram m)(uint sp := ucast ret_address);
          r2 = r1(uint (sp + 1) := saved_lcl frame);
          r3 = r2(uint (sp + 2) := saved_arg frame);
          r4 = r3(uint (sp + 3) := saved_this frame);
          r5 = r4(uint (sp + 4) := saved_that frame);
          sp5 = sp + 5;
          r6 = r5(VM_ARG := sp5 - n_args - 5);
          r7 = r6(VM_LCL := sp5);
          (sp_end, r8) = zero_locals (unat n_locals) sp5 r7;
          r9 = r8(VM_SP := sp_end)
      in m\<lparr>vm_ram := r9, call_stack := call_stack m @ [frame]\<rparr>)"

definition pop_frame :: "Word \<Rightarrow> VMMemory \<Rightarrow> N2TError + (64 word \<times> VMMemory)" where
  "pop_frame return_value m =
     (if call_stack m = [] then
        Inl (RuntimeError (''Attempted to return but no function is active. ''
               @ ''This usually means a '' @ [CHR 0x27] @ ''return'' @ [CHR 0x27]
               @ '' without a matching '' @ [CHR 0x27] @ ''call'' @ [CHR 0x27] @ ''.''))
      else
        (let r0 = vm_ram m;
             frame_ptr = r0 VM_LCL;
             ret_addr = (ucast (r0 (uint frame_ptr - 5)) :: 64 word);
             arg_addr = r0 VM_ARG;
             r1 = r0(VM_THAT := r0 (uint frame_ptr - 1));
             r2 = r1(VM_THIS := r1 (uint frame_ptr - 2));
             r3 = r2(VM_ARG := r2 (uint frame_ptr - 3));
             r4 = r3(VM_LCL := r3 (uint frame_ptr - 4));
             r5 = r4(uint arg_addr := return_value);
             r6 = r5(VM_SP := arg_addr + 1)
         in Inr (ret_addr, m\<lparr>vm_ram := r6, call_stack := butlast (call_stack m)\<rparr>)))"

definition current_function :: "VMMemory \<Rightarrow> string" where
  "current_function m = (if call_stack m = [] then [] else function_name (last (call_stack m)))"

definition VMMemory_get_pixel :: "VMMemory \<Rightarrow> int \<Rightarrow> int \<Rightarrow> bool" where
  "VMMemory_get_pixel m x y =
     (if x < 0 \<or> x \<ge> 512 \<or> y < 0 \<or> y \<ge> 256 then False
      else (let word_offset = (y * 32) + (x div 16);
                bit_offset = x mod 16;
                w = vm_ram m (SCREEN_BASE + word_offset)
            in (drop_bit (nat bit_offset) w) AND 1 \<noteq> 0))"

definition VMMemory_set_pixel :: "VMMemory \<Rightarrow> int \<Rightarrow> int \<Rightarrow> bool \<Rightarrow> VMMemory" where
  "VMMemory_set_pixel m x y on =
     (if x < 0 \<or> x \<ge> 512 \<or> y < 0 \<or> y \<ge> 256 then m
      else (let word_offset = (y * 32) + (x div 16);
                bit_offset = x mod 16;
                addr = SCREEN_BASE + word_offset;
                w = (if on then vm_ram m addr OR push_bit (nat bit_offset) 1
                     else vm_ram m addr AND NOT (push_bit (nat bit_offset) 1))
            in m\<lparr>vm_ram := (vm_ram m)(addr := w)\<rparr>))"

section \<open>VM engine (vm_engine.hpp, vm_engine.cpp)\<close>

datatype VMState = VM_READY | VM_RUNNING | VM_PAUSED | VM_HALTED | VM_ERROR

datatype PauseReason = VM_NONE | VM_STEP_COMPLETE | VM_BREAKPOINT | VM_FUNCTION_ENTRY
  | VM_FUNCTION_EXIT | VM_USER_REQUEST

record VMStats =
  vm_instructions_executed :: "64 word"
  push_count :: "64 word"
  pop_count :: "64 word"
  arithmetic_count :: "64 word"
  call_count :: "64 word"
  return_count :: "64 word"

definition VMStats_reset :: VMStats where
  "VMStats_reset = \<lparr>vm_instructions_executed = 0, push_count = 0, pop_count = 0,
     arithmetic_count = 0, call_count = 0, return_count = 0\<rparr>"

record VMEngine =
  vm_program :: VMProgram
  vm_memory :: VMMemory
  vm_pc :: "64 word"
  vm_state :: VMState
  vm_pause_reason :: PauseReason
  vm_stats :: VMStats
  entry_point :: string
  vm_pause_requested :: bool
  vm_breakpoints :: "64 word set"
  vm_error_message :: string
  vm_error_location :: "64 word"

definition VMEngine_new :: VMEngine where
  "VMEngine_new = \<lparr>vm_program = \<lparr>commands = [], label_positions = Map.empty,
                                   function_entry_points = Map.empty, source_files = []\<rparr>,
     vm_memory = VMMemory_new, vm_pc = 0, vm_state = VM_READY, vm_pause_reason = VM_NONE,
     vm_stats = VMStats_reset, entry_point = [], vm_pause_requested = False, vm_breakpoints = {},
     vm_error_message = [], vm_error_location = 0\<rparr>"

text \<open>
  What \<open>load_file\<close>, \<open>load_string\<close> and \<open>load_directory\<close> do once the parser has
  returned its program; the parser itself is not part of the model.
\<close>

definition VMEngine_load_program :: "VMProgram \<Rightarrow> VMEngine \<Rightarrow> VMEngine" where
  "VMEngine_load_program p s = s\<lparr>vm_program := p, vm_state := VM_READY, vm_pc := 0, vm_stats := VMStats_reset\<rparr>"


definition VMEngine_add_breakpoint :: "64 word \<Rightarrow> VMEngine \<Rightarrow> VMEngine" where
  "VMEngine_add_breakpoint command_index s = s\<lparr>vm_breakpoints := insert command_index (vm_breakpoints s)\<rparr>"

definition set_error :: "string \<Rightarrow> VMEngine \<Rightarrow> VMEngine" where
  "set_error message s = s\<lparr>vm_error_message := message, vm_error_location := vm_pc s, vm_state := VM_ERROR\<rparr>"

text \<open>
  A handler of the engine returns \<open>Inl (e, s')\<close> for a throw of \<open>e\<close> with the engine as
  it is at the throw, \<open>Inr s'\<close> otherwise. \<open>mem_pop\<close> and \<open>mem_push\<close> are the calls
  \<open>memory_.pop()\<close> and \<open>memory_.push(v)\<close> seen from the engine.
\<close>

type_synonym 'a thrown = "(N2TError \<times> VMEngine) + 'a"

definition and_then :: "'a thrown \<Rightarrow> ('a \<Rightarrow> 'b thrown) \<Rightarrow> 'b thrown" where
  "and_then r f = (case r of Inl es \<Rightarrow> Inl es | Inr x \<Rightarrow> f x)"

definition mem_pop :: "VMEngine \<Rightarrow> (Word \<times> VMEngine) thrown" where
  "mem_pop s = (case pop (vm_memory s) of
                  Inl e \<Rightarrow> Inl (e, s)
                | Inr (v, m) \<Rightarrow> Inr (v, s\<lparr>vm_memory := m\<rparr>))"

definition mem_push :: "Word \<Rightarrow> VMEngine \<Rightarrow> VMEngine thrown" where
  "mem_push v s = (case push v (vm_memory s) of
                     Inl e \<Rightarrow> Inl (e, s)
                   | Inr m \<Rightarrow> Inr (s\<lparr>vm_memory := m\<rparr>))"

definition pc_next :: "VMEngine \<Rightarrow> VMEngine" where
  "pc_next s = s\<lparr>vm_pc := vm_pc s + 1\<rparr>"

text \<open>Pop \<open>y\<close>, pop \<open>x\<close>, push \<open>f x y\<close>; and pop \<open>y\<close>, push \<open>f y\<close>.\<close>

definition binary_op :: "(Word \<Rightarrow> Word \<Rightarrow> Word) \<Rightarrow> VMEngine \<Rightarrow> VMEngine thrown" where
  "binary_op f s =
     and_then (mem_pop s) (\<lambda>(y, s1). and_then (mem_pop s1) (\<lambda>(x, s2). mem_push (f x y) s2))"

definition unary_op :: "(Word \<Rightarrow> Word) \<Rightarrow> VMEngine \<Rightarrow> VMEngine thrown" where
  "unary_op f s = and_then (mem_pop s) (\<lambda>(y, s1). mem_push (f y) s1)"

definition execute_arithmetic :: "ArithmeticOp \<Rightarrow> VMEngine \<Rightarrow> VMEngine thrown" where
  "execute_arithmetic operation s =
     (let s0 = s\<lparr>vm_stats := (vm_stats s)\<lparr>arithmetic_count := arithmetic_count (vm_stats s) + 1\<rparr>\<rparr>
      in and_then
           (case operation of
              ADD \<Rightarrow> binary_op (\<lambda>x y. x + y) s0
            | SUB \<Rightarrow> binary_op (\<lambda>x y. x - y) s0
            | NEG \<Rightarrow> unary_op (\<lambda>y. - y) s0
            | EQ \<Rightarrow> binary_op (\<lambda>x y. if x = y then 0xFFFF else 0) s0
            | GT \<Rightarrow> binary_op (\<lambda>x y. if sint x > sint y then 0xFFFF else 0) s0
            | LT \<Rightarrow> binary_op (\<lambda>x y. if sint x < sint y then 0xFFFF else 0) s0
            | AND_OP \<Rightarrow> binary_op (\<lambda>x y. x AND y) s0
            | OR_OP \<Rightarrow> binary_op (\<lambda>x y. x OR y) s0
            | NOT_OP \<Rightarrow> unary_op (\<lambda>y. NOT y) s0)
           (\<lambda>s1. Inr (pc_next s1)))"

definition execute_push :: "SegmentType \<Rightarrow> Word \<Rightarrow> string \<Rightarrow> VMEngine \<Rightarrow> VMEngine thrown" where
  "execute_push segment index file_name s =
     (let s0 = s\<lparr>vm_stats := (vm_stats s)\<lparr>push_count := push_count (vm_stats s) + 1\<rparr>\<rparr>
      in case read_segment (vm_memory s0) segment index file_name of
           Inl e \<Rightarrow> Inl (e, s0)
         | Inr v \<Rightarrow> and_then (mem_push v s0) (\<lambda>s1. Inr (pc_next s1)))"

definition execute_pop :: "SegmentType \<Rightarrow> Word \<Rightarrow> string \<Rightarrow> VMEngine \<Rightarrow> VMEngine thrown" where
  "execute_pop segment index file_name s =
     (let s0 = s\<lparr>vm_stats := (vm_stats s)\<lparr>pop_count := pop_count (vm_stats s) + 1\<rparr>\<rparr>
      in and_then (mem_pop s0)
           (\<lambda>(v, s1). case write_segment (vm_memory s1) segment index v file_name of
                         Inl e \<Rightarrow> Inl (e, s1)
                       | Inr m \<Rightarrow> Inr (pc_next (s1\<lparr>vm_memory := m\<rparr>))))"

definition lookup_label :: "VMEngine \<Rightarrow> string \<Rightarrow> N2TError + 64 word" where
  "lookup_label s label_name =
     (let current_func = current_function (vm_memory s);
          scoped = (if current_func \<noteq> []
                    then label_positions (vm_program s) (current_func @ ''$'' @ label_name)
                    else None)
      in case scoped of
           Some p \<Rightarrow> Inr p
         | None \<Rightarrow>
            (case label_positions (vm_program s) label_name of
               Some p \<Rightarrow> Inr p
             | None \<Rightarrow> Inl (RuntimeError (''Undefined label: '' @ [CHR 0x27] @ label_name @ [CHR 0x27]
                          @ ''. Make sure the label is defined in the current function with ''
                          @ [CHR 0x27] @ ''label '' @ label_name @ [CHR 0x27] @ ''.''))))"

definition lookup_function :: "VMEngine \<Rightarrow> string \<Rightarrow> N2TError + 64 word" where
  "lookup_function s fname =
     (case function_entry_points (vm_program s) fname of
        Some p \<Rightarrow> Inr p
      | None \<Rightarrow> Inl (RuntimeError (''Undefined function: '' @ [CHR 0x27] @ fname @ [CHR 0x27]
                   @ ''. Make sure the function is defined with '' @ [CHR 0x27] @ ''function '' @ fname
                   @ '' <nLocals>'' @ [CHR 0x27] @ '' and the .vm file containing it has been loaded.'')))"

definition execute_goto :: "string \<Rightarrow> VMEngine \<Rightarrow> VMEngine thrown" where
  "execute_goto label_name s =
     (case lookup_label s label_name of
        Inl e \<Rightarrow> Inl (e, s)
      | Inr p \<Rightarrow> Inr (s\<lparr>vm_pc := p\<rparr>))"

definition execute_if_goto :: "string \<Rightarrow> VMEngine \<Rightarrow> VMEngine thrown" where
  "execute_if_goto label_name s =
     and_then (mem_pop s)
       (\<lambda>(condition, s1).
          if condition \<noteq> 0 then
            (case lookup_label s1 label_name of
               Inl e \<Rightarrow> Inl (e, s1)
             | Inr p \<Rightarrow> Inr (s1\<lparr>vm_pc := p\<rparr>))
          else Inr (pc_next s1))"

text \<open>
  The \<open>num_locals\<close> that \<open>execute_call\<close> and \<open>initialize_execution\<close> read off the
  command at the entry of the function.
\<close>

definition locals_at :: "VMProgram \<Rightarrow> 64 word \<Rightarrow> Word" where
  "locals_at p function_pc =
     (if unat function_pc < length (commands p) then
        (case commands p ! unat function_pc of
           FunctionCommand fname n_locals source_line \<Rightarrow> n_locals
         | _ \<Rightarrow> 0)
      else 0)"

definition execute_call :: "string \<Rightarrow> Word \<Rightarrow> VMEngine \<Rightarrow> VMEngine thrown" where
  "execute_call fname n_args s =
     (let s0 = s\<lparr>vm_stats := (vm_stats s)\<lparr>call_count := call_count (vm_stats s) + 1\<rparr>\<rparr>
      in case lookup_function s0 fname of
           Inl e \<Rightarrow> Inl (e, s0)
         | Inr function_pc \<Rightarrow>
            (let ret_address = vm_pc s0 + 1;
                 n_locals = locals_at (vm_program s0) function_pc
             in Inr (s0\<lparr>vm_memory := push_frame ret_address fname n_args n_locals (vm_memory s0),
                        vm_pc := function_pc\<rparr>)))"

definition execute_return :: "VMEngine \<Rightarrow> VMEngine thrown" where
  "execute_return s =
     (let s0 = s\<lparr>vm_stats := (vm_stats s)\<lparr>return_count := return_count (vm_stats s) + 1\<rparr>\<rparr>
      in and_then (mem_pop s0)
           (\<lambda>(return_value, s1).
              case pop_frame return_value (vm_memory s1) of
                Inl e \<Rightarrow> Inl (e, s1)
              | Inr (ret_address, m) \<Rightarrow>
                 (let s2 = s1\<lparr>vm_memory := m\<rparr>
                  in if ret_address = 0 then Inr (s2\<lparr>vm_state := VM_HALTED\<rparr>)
                     else Inr (s2\<lparr>vm_pc := ret_address\<rparr>))))"

text \<open>The \<open>std::visit\<close> of \<open>execute_command\<close>.\<close>

fun dispatch :: "VMCommand \<Rightarrow> VMEngine \<Rightarrow> VMEngine thrown" where
  "dispatch (ArithmeticCommand operation source_line) s = execute_arithmetic operation s"
| "dispatch (PushCommand segment index file_name source_line) s = execute_push segment index file_name s"
| "dispatch (PopCommand segment index file_name source_line) s = execute_pop segment index file_name s"
| "dispatch (LabelCommand label_name source_line) s = Inr (pc_next s)"
| "dispatch (GotoCommand label_name source_line) s = execute_goto label_name s"
| "dispatch (IfGotoCommand label_name source_line) s = execute_if_goto label_name s"
| "dispatch (FunctionCommand fname n_locals source_line) s = Inr (pc_next s)"
| "dispatch (CallCommand fname n_args source_line) s = execute_call fname n_args s"
| "dispatch (ReturnCommand source_line) s = execute_return s"

definition execute_command :: "VMEngine \<Rightarrow> bool \<times> VMEngine" where
  "execute_command s =
     (if unat (vm_pc s) \<ge> length (commands (vm_program s)) then (False, s\<lparr>vm_state := VM_HALTED\<rparr>)
      else if vm_pause_requested s then
        (False, s\<lparr>vm_pause_requested := False, vm_state := VM_PAUSED, vm_pause_reason := VM_USER_REQUEST\<rparr>)
      else if vm_instructions_executed (vm_stats s) > 0 \<and> vm_pc s \<in> vm_breakpoints s then
        (False, s\<lparr>vm_state := VM_PAUSED, vm_pause_reason := VM_BREAKPOINT\<rparr>)
      else (case dispatch (commands (vm_program s) ! unat (vm_pc s)) s of
              Inl (e, s1) \<Rightarrow>
                (False, s1\<lparr>vm_error_message := what e, vm_error_location := vm_pc s1, vm_state := VM_ERROR\<rparr>)
            | Inr s1 \<Rightarrow>
                (True, s1\<lparr>vm_stats := (vm_stats s1)\<lparr>vm_instructions_executed :=
                                                      vm_instructions_executed (vm_stats s1) + 1\<rparr>\<rparr>)))"

text \<open>
  The loop of \<open>initialize_execution\<close> that allocates a static base for every source
  file. \<open>stem\<close> stands for \<open>get_file_basename\<close>, which is
  \<open>std::filesystem::path(file).stem()\<close>.
\<close>

fun allocate_statics :: "(string \<Rightarrow> string) \<Rightarrow> string list \<Rightarrow> VMMemory \<Rightarrow> N2TError + VMMemory" where
  "allocate_statics stem [] m = Inr m"
| "allocate_statics stem (file # files) m =
     (case get_static_base (stem file) m of
        Inl e \<Rightarrow> Inl e
      | Inr (base, m1) \<Rightarrow> allocate_statics stem files m1)"

text \<open>
  \<open>initialize_execution\<close>. The exception of \<open>get_static_base\<close> is not caught in the
  engine: it leaves \<open>run\<close> or \<open>step\<close>, and the model returns it as \<open>Inl\<close>.
\<close>

definition initialize_execution :: "(string \<Rightarrow> string) \<Rightarrow> VMEngine \<Rightarrow> N2TError + VMEngine" where
  "initialize_execution stem s =
     (let s0 = s\<lparr>vm_memory := VMMemory_reset (vm_memory s)\<rparr>;
          p = vm_program s0;
          entry = (if entry_point s0 \<noteq> [] then entry_point s0
                   else if function_entry_points p ''Sys.init'' \<noteq> None then ''Sys.init''
                   else if function_entry_points p ''Main.main'' \<noteq> None then ''Main.main''
                   else [])
      in case (if entry \<noteq> [] then
                 (case function_entry_points p entry of
                    Some start \<Rightarrow>
                      Inr (s0\<lparr>vm_pc := start,
                              vm_memory := push_frame 0 entry 0 (locals_at p start) (vm_memory s0)\<rparr>)
                  | None \<Rightarrow>
                      Inl (set_error (''Entry point function '' @ [CHR 0x27] @ entry @ [CHR 0x27]
                                      @ '' not found'') s0))
               else Inr (s0\<lparr>vm_pc := 0\<rparr>)) of
           Inl s_err \<Rightarrow> Inr s_err
         | Inr s1 \<Rightarrow>
            (case allocate_statics stem (source_files p) (vm_memory s1) of
               Inl e \<Rightarrow> Inl e
             | Inr m \<Rightarrow> Inr (s1\<lparr>vm_memory := m, vm_state := VM_PAUSED, vm_pause_reason := VM_NONE\<rparr>)))"

partial_function (option) VMEngine_run_loop :: "VMEngine \<Rightarrow> VMEngine option" where
  "VMEngine_run_loop s =
     (if vm_state s \<noteq> VM_RUNNING then Some s
      else if fst (execute_command s) then VMEngine_run_loop (snd (execute_command s))
      else Some (snd (execute_command s)))"

text \<open>
  \<open>run()\<close> and \<open>step()\<close> return \<open>state_\<close>; the model returns the engine. \<open>None\<close> is a
  loop that never ends, \<open>Some (Inl e)\<close> the exception that leaves \<open>initialize_execution\<close>.
\<close>

definition VMEngine_run :: "(string \<Rightarrow> string) \<Rightarrow> VMEngine \<Rightarrow> (N2TError + VMEngine) option" where
  "VMEngine_run stem s =
     (case (if vm_state s = VM_READY then initialize_execution stem s else Inr s) of
        Inl e \<Rightarrow> Some (Inl e)
      | Inr s1 \<Rightarrow>
          (if vm_state s1 \<noteq> VM_PAUSED \<and> vm_state s1 \<noteq> VM_RUNNING then Some (Inr s1)
           else map_option Inr
                  (VMEngine_run_loop (s1\<lparr>vm_state := VM_RUNNING, vm_pause_reason := VM_NONE,
                                          vm_pause_requested := False\<rparr>))))"








section \<open>HDL chip runtime (hdl_parser.hpp, hdl_chip.hpp, hdl_chip.cpp)\<close>

text \<open>
  Of a chip definition, the name and the input and output ports; of a chip instance, its
  definition, its sub-chip instances (here by the names of their chips: the evaluation
  order only takes their number), the evaluation order and the two tables of wire
  mappings. Indices of parts are \<open>size_t\<close> values that index vectors in memory: natural
  numbers. The in-degrees of the topological sort are \<open>size_t\<close> counters that the code
  increments and decrements: 64-bit words.
\<close>

record HDLPort =
  port_name :: string
  port_width :: "8 word"

record HDLChipDef =
  def_name :: string
  inputs :: "HDLPort list"
  outputs :: "HDLPort list"

record WireMapping =
  part_index :: nat
  part_pin :: string
  part_lo :: int
  part_hi :: int
  chip_pin :: string
  chip_lo :: int
  chip_hi :: int
  is_input :: bool

record HDLChip =
  chip_def :: HDLChipDef
  sub_chips :: "string list"
  eval_order :: "nat list"
  input_mappings :: "WireMapping list"
  output_mappings :: "WireMapping list"

definition is_chip_input :: "HDLChip \<Rightarrow> string \<Rightarrow> bool" where
  "is_chip_input c name = list_ex (\<lambda>p. port_name p = name) (inputs (chip_def c))"

definition is_chip_output :: "HDLChip \<Rightarrow> string \<Rightarrow> bool" where
  "is_chip_output c name = list_ex (\<lambda>p. port_name p = name) (outputs (chip_def c))"

text \<open>
  A \<open>std::set<std::string>\<close> is a sorted list without duplicates, in the order of
  \<open>std::string\<close>: lexicographic on the character codes. \<open>part_outputs\<close> and \<open>part_inputs\<close>
  are vectors of \<open>n\<close> such sets, indexed with \<open>operator[]\<close>, which does not check the index.
\<close>

definition part_outputs :: "HDLChip \<Rightarrow> nat \<Rightarrow> string list list" where
  "part_outputs c n =
     fold (\<lambda>m po. po[part_index m := insort_insert (chip_pin m) (po ! part_index m)])
          (output_mappings c) (replicate n [])"

definition part_inputs :: "HDLChip \<Rightarrow> nat \<Rightarrow> string list list" where
  "part_inputs c n =
     fold (\<lambda>m pi.
             if chip_pin m = ''true'' \<or> chip_pin m = ''false'' then pi
             else if \<not> is_chip_input c (chip_pin m) \<and> \<not> is_chip_output c (chip_pin m)
                  then pi[part_index m := insort_insert (chip_pin m) (pi ! part_index m)]
                  else pi)
          (input_mappings c) (replicate n [])"

text \<open>
  The adjacency lists and the in-degrees: part \<open>a\<close> comes before part \<open>b\<close> if \<open>a\<close> writes
  a wire that \<open>b\<close> reads. The loops run over \<open>b\<close> (\<open>build_graph\<close>), over the wires of
  \<open>part_inputs[b]\<close> (\<open>edges_into\<close>) and over \<open>a\<close> (\<open>edges_of_wire\<close>).
\<close>

definition add_edge :: "nat \<Rightarrow> nat \<Rightarrow> nat list list \<times> 64 word list \<Rightarrow> nat list list \<times> 64 word list" where
  "add_edge a b g = (case g of (adj, in_degree) \<Rightarrow>
     (adj[a := adj ! a @ [b]], in_degree[b := in_degree ! b + 1]))"

definition edges_of_wire ::
  "nat \<Rightarrow> string list list \<Rightarrow> nat \<Rightarrow> string
     \<Rightarrow> nat list list \<times> 64 word list \<Rightarrow> nat list list \<times> 64 word list" where
  "edges_of_wire n p_outputs b wire =
     fold (\<lambda>a g. if a \<noteq> b \<and> wire \<in> set (p_outputs ! a) then add_edge a b g else g) [0..<n]"

definition edges_into ::
  "nat \<Rightarrow> string list list \<Rightarrow> string list list \<Rightarrow> nat
     \<Rightarrow> nat list list \<times> 64 word list \<Rightarrow> nat list list \<times> 64 word list" where
  "edges_into n p_inputs p_outputs b = fold (edges_of_wire n p_outputs b) (p_inputs ! b)"

definition build_graph :: "nat \<Rightarrow> string list list \<Rightarrow> string list list \<Rightarrow> nat list list \<times> 64 word list" where
  "build_graph n p_inputs p_outputs =
     fold (edges_into n p_inputs p_outputs) [0..<n] (replicate n [], replicate n 0)"

text \<open>
  Kahn's algorithm. The queue is a list: \<open>front\<close> is the head, \<open>push\<close> appends. One pass
  of the inner loop decrements the in-degree of each successor of \<open>u\<close> and pushes those
  that reach zero. The outer loop runs while the queue is not empty; not returning is the
  value \<open>None\<close>.
\<close>

definition relax :: "nat \<Rightarrow> 64 word list \<times> nat list \<Rightarrow> 64 word list \<times> nat list" where
  "relax v s = (case s of (in_degree, q) \<Rightarrow>
     (let in_degree1 = in_degree[v := in_degree ! v - 1]
      in (in_degree1, if in_degree1 ! v = 0 then q @ [v] else q)))"

partial_function (option) kahn_loop ::
  "nat list list \<Rightarrow> 64 word list \<Rightarrow> nat list \<Rightarrow> nat list \<Rightarrow> nat list option" where
  "kahn_loop adj in_degree q order =
     (case q of
        [] \<Rightarrow> Some order
      | u # q1 \<Rightarrow>
          (case fold relax (adj ! u) (in_degree, q1) of
             (in_degree1, q2) \<Rightarrow> kahn_loop adj in_degree1 q2 (order @ [u])))"

definition compute_eval_order :: "HDLChip \<Rightarrow> HDLChip option" where
  "compute_eval_order c =
     (let n = length (sub_chips c) in
      if n = 0 then Some c
      else
        (case build_graph n (part_inputs c n) (part_outputs c n) of
           (adj, in_degree) \<Rightarrow>
             (case kahn_loop adj in_degree (filter (\<lambda>i. in_degree ! i = 0) [0..<n]) [] of
                None \<Rightarrow> None
              | Some order \<Rightarrow>
                  Some (c\<lparr>eval_order := if length order \<noteq> n then [0..<n] else order\<rparr>))))"

section \<open>Notions the statements use\<close>

text \<open>
  The lines of a text that \<open>load_rom_string\<close> hands to \<open>parse_binary_line\<close>: each line
  without its trailing whitespace, the empty ones left out. A binary line is 16
  characters, each \<open>'0'\<close> or \<open>'1'\<close>.
\<close>

definition loaded_lines :: "string \<Rightarrow> string list" where
  "loaded_lines hack_text = filter (\<lambda>t. t \<noteq> []) (map trim_trailing (getlines hack_text))"

definition is_binary_line :: "string \<Rightarrow> bool" where
  "is_binary_line t = (length t = 16 \<and> set t \<subseteq> {CHR ''0'', CHR ''1''})"

text \<open>
  A text given line by line. A line is a pair of a body and the blanks after it: the
  blanks are carriage returns, spaces and tabs, the body has no newline and does not end
  in a carriage return, a space or a tab. \<open>hack_text_of\<close> writes the lines one after the
  other, each followed by a newline.
\<close>

definition line_split :: "string \<times> string \<Rightarrow> bool" where
  "line_split p =
     (set (snd p) \<subseteq> {CHR 0x0D, CHR 0x20, CHR 0x09} \<and> CHR 0x0A \<notin> set (fst p)
      \<and> (fst p = [] \<or> last (fst p) \<notin> {CHR 0x0D, CHR 0x20, CHR 0x09}))"

definition hack_text_of :: "(string \<times> string) list \<Rightarrow> string" where
  "hack_text_of ls = concat (map (\<lambda>p. fst p @ snd p @ [CHR 0x0A]) ls)"

text \<open>The bodies that are not empty: the lines that hold an instruction.\<close>

definition instruction_lines :: "(string \<times> string) list \<Rightarrow> string list" where
  "instruction_lines ls = filter (\<lambda>t. t \<noteq> []) (map fst ls)"

text \<open>A CPU memory whose screen has been written to: its dirty flag is set.\<close>

definition memory_after_screen_write :: CPUMemory where
  "memory_after_screen_write =
     (case write_ram CPUMemory_new 0x4000 1 of Inr m \<Rightarrow> m | Inl e \<Rightarrow> CPUMemory_new)"

text \<open>
  An engine about to execute \<open>AMD=M+1;JGT\<close> (\<open>0xFDF9\<close>) at ROM address 0, inside
  \<open>run()\<close>.
\<close>

definition c_instruction_example :: CPUEngine where
  "c_instruction_example =
     (case CPUEngine_load [0xFDF9, 0x0000] CPUEngine_new of
        Inr s \<Rightarrow> s\<lparr>state := CPU_RUNNING\<rparr>
      | Inl e \<Rightarrow> CPUEngine_new)"

text \<open>
  The engines of the breakpoint tests of \<open>cpu_engine_test.cpp\<close> and
  \<open>vm_engine_test.cpp\<close>, as they are before the first \<open>run()\<close>: the program loaded,
  the breakpoint added. The CPU program is \<open>@1; D=A; @2; D=A\<close> with a breakpoint at ROM
  address 2; the VM program is \<open>function Sys.init 0; push constant 10; push constant 20;
  push constant 30; return\<close> with a breakpoint at command 3.
\<close>

definition cpu_breakpoint_example :: CPUEngine where
  "cpu_breakpoint_example =
     (case CPUEngine_load [0x0001, 0xEC10, 0x0002, 0xEC10] CPUEngine_new of
        Inr s \<Rightarrow> CPUEngine_add_breakpoint 2 s
      | Inl e \<Rightarrow> CPUEngine_new)"

definition vm_breakpoint_program :: VMProgram where
  "vm_breakpoint_program =
     \<lparr>commands = [FunctionCommand ''Sys.init'' 0 1,
                  PushCommand CONSTANT 10 ''test'' 2,
                  PushCommand CONSTANT 20 ''test'' 3,
                  PushCommand CONSTANT 30 ''test'' 4,
                  ReturnCommand 5],
      label_positions = Map.empty,
      function_entry_points = [''Sys.init'' \<mapsto> 0],
      source_files = [''test'']\<rparr>"

definition vm_breakpoint_example :: VMEngine where
  "vm_breakpoint_example = VMEngine_add_breakpoint 3 (VMEngine_load_program vm_breakpoint_program VMEngine_new)"












text \<open>
  A VM engine loaded with the one command \<open>function Sys.init 2000\<close>, and a VM memory
  whose stack is full but for one word: \<open>SP = 2047\<close>, as after 1791 pushes.
\<close>

definition vm_many_locals_example :: VMEngine where
  "vm_many_locals_example =
     VMEngine_load_program
       \<lparr>commands = [FunctionCommand ''Sys.init'' 2000 1], label_positions = Map.empty,
        function_entry_points = [''Sys.init'' \<mapsto> 0], source_files = [''test'']\<rparr>
       VMEngine_new"

definition vm_memory_nearly_full :: VMMemory where
  "vm_memory_nearly_full = VMMemory_new\<lparr>vm_ram := (vm_ram VMMemory_new)(VM_SP := 2047)\<rparr>"







text \<open>
  The dependencies of the parts of a chip. An internal wire is a name that is neither a
  constant nor a pin of the chip. An output mapping of a part is a write of its wire by
  that part, an input mapping a read. \<open>misordered c order\<close> lists the pairs of a read
  and a write of the same internal wire by two different parts where the writer does not
  come before the reader in \<open>order\<close>; \<open>readers_after_writers c order\<close>: there is no such
  pair.
\<close>

definition internal_wire :: "HDLChip \<Rightarrow> string \<Rightarrow> bool" where
  "internal_wire c w =
     (w \<noteq> ''true'' \<and> w \<noteq> ''false'' \<and> \<not> is_chip_input c w \<and> \<not> is_chip_output c w)"

definition position :: "nat \<Rightarrow> nat list \<Rightarrow> nat" where
  "position x xs = length (takeWhile (\<lambda>y. y \<noteq> x) xs)"

definition precedes :: "nat \<Rightarrow> nat \<Rightarrow> nat list \<Rightarrow> bool" where
  "precedes a b xs = (a \<in> set xs \<and> b \<in> set xs \<and> position a xs < position b xs)"

definition depends_on :: "HDLChip \<Rightarrow> WireMapping \<Rightarrow> WireMapping \<Rightarrow> bool" where
  "depends_on c mi mo =
     (chip_pin mi = chip_pin mo \<and> internal_wire c (chip_pin mi) \<and> part_index mi \<noteq> part_index mo)"

definition misordered :: "HDLChip \<Rightarrow> nat list \<Rightarrow> (WireMapping \<times> WireMapping) list" where
  "misordered c order =
     filter (\<lambda>(mi, mo). depends_on c mi mo \<and> \<not> precedes (part_index mo) (part_index mi) order)
            (List.product (input_mappings c) (output_mappings c))"

definition readers_after_writers :: "HDLChip \<Rightarrow> nat list \<Rightarrow> bool" where
  "readers_after_writers c order = (misordered c order = [])"

text \<open>The number of entries of the adjacency lists that \<open>compute_eval_order\<close> builds.\<close>

definition edge_count :: "HDLChip \<Rightarrow> nat" where
  "edge_count c =
     (let n = length (sub_chips c)
      in sum_list (map length (fst (build_graph n (part_inputs c n) (part_outputs c n)))))"

text \<open>
  For the proof of the topological sort: the number of edges into \<open>v\<close> from the parts
  of \<open>S\<close>, and the invariant of the loop of Kahn's algorithm. The in-degree of a part is
  the number of its edges from parts not yet in the order; the parts in the order or in
  the queue are those without such an edge; every part in the order comes after its
  predecessors.
\<close>

definition in_edges :: "nat list list \<Rightarrow> nat set \<Rightarrow> nat \<Rightarrow> nat" where
  "in_edges adj S v = (\<Sum>a\<in>S. count_list (adj ! a) v)"

definition kahn_inv :: "nat \<Rightarrow> nat list list \<Rightarrow> 64 word list \<Rightarrow> nat list \<Rightarrow> nat list \<Rightarrow> bool" where
  "kahn_inv n adj in_degree q order =
     (length in_degree = n \<and> distinct (order @ q) \<and> set (order @ q) \<subseteq> {..<n}
      \<and> (\<forall>v<n. in_degree ! v = of_nat (in_edges adj ({..<n} - set order) v))
      \<and> (\<forall>v<n. (v \<in> set (order @ q)) = (in_edges adj ({..<n} - set order) v = 0))
      \<and> (\<forall>b\<in>set order. \<forall>a<n. b \<in> set (adj ! a) \<longrightarrow> precedes a b order))"

text \<open>
  For the proof of the dependency graph: the in-degrees count the entries of the
  adjacency lists, and every entry of an adjacency list comes from a wire that the one
  part reads and the other writes.
\<close>

definition graph_ok :: "nat \<Rightarrow> nat list list \<times> 64 word list \<Rightarrow> bool" where
  "graph_ok n g = (length (fst g) = n \<and> length (snd g) = n
      \<and> (\<forall>b<n. snd g ! b = of_nat (in_edges (fst g) {..<n} b)))"

definition edges_sound :: "nat \<Rightarrow> string list list \<Rightarrow> string list list \<Rightarrow> nat list list \<times> 64 word list \<Rightarrow> bool" where
  "edges_sound n pin pout g = (length (fst g) = n
      \<and> (\<forall>a<n. \<forall>b\<in>set (fst g ! a). b < n \<and> a \<noteq> b \<and> (\<exists>w\<in>set (pin ! b). w \<in> set (pout ! a))))"

text \<open>
  The invariant as the specification words it, for every wire and every pair of parts:
  \<open>spec_misordered c order\<close> lists the pairs of a read and a write of the same wire where
  the writer does not come before the reader in \<open>order\<close>.
\<close>

definition spec_misordered :: "HDLChip \<Rightarrow> nat list \<Rightarrow> (WireMapping \<times> WireMapping) list" where
  "spec_misordered c order =
     filter (\<lambda>(mi, mo). chip_pin mi = chip_pin mo
                         \<and> \<not> precedes (part_index mo) (part_index mi) order)
            (List.product (input_mappings c) (output_mappings c))"

text \<open>
  Chips as \<open>build_wiring\<close> leaves them, before \<open>compute_eval_order\<close>: one mapping for each
  connection of each part, in the order of the source, on whole pins (\<open>-1\<close>).

  \<open>Xor\<close> with its parts written output first:
  \<open>Or(a=w1, b=w2, out=out); And(a=a, b=notb, out=w1); And(a=nota, b=b, out=w2);
  Not(in=a, out=nota); Not(in=b, out=notb)\<close>.

  \<open>Bit\<close>, with the feedback through its flip-flop:
  \<open>Mux(a=dffout, b=in, sel=load, out=muxout); DFF(in=muxout, out=out, out=dffout)\<close>.

  A chip whose first part reads the output pin of the chip, which the second part writes:
  \<open>Not(in=out, out=w); Not(in=in, out=out)\<close>.
\<close>

definition wire_mapping :: "nat \<Rightarrow> string \<Rightarrow> string \<Rightarrow> bool \<Rightarrow> WireMapping" where
  "wire_mapping pi pin wire inp =
     \<lparr>part_index = pi, part_pin = pin, part_lo = - 1, part_hi = - 1,
      chip_pin = wire, chip_lo = - 1, chip_hi = - 1, is_input = inp\<rparr>"

definition hdl_xor_example :: HDLChip where
  "hdl_xor_example =
     \<lparr>chip_def = \<lparr>def_name = ''Xor'',
                   inputs = [\<lparr>port_name = ''a'', port_width = 1\<rparr>,
                             \<lparr>port_name = ''b'', port_width = 1\<rparr>],
                   outputs = [\<lparr>port_name = ''out'', port_width = 1\<rparr>]\<rparr>,
      sub_chips = [''Or'', ''And'', ''And'', ''Not'', ''Not''],
      eval_order = [],
      input_mappings = [wire_mapping 0 ''a'' ''w1'' True, wire_mapping 0 ''b'' ''w2'' True,
                        wire_mapping 1 ''a'' ''a'' True, wire_mapping 1 ''b'' ''notb'' True,
                        wire_mapping 2 ''a'' ''nota'' True, wire_mapping 2 ''b'' ''b'' True,
                        wire_mapping 3 ''in'' ''a'' True,
                        wire_mapping 4 ''in'' ''b'' True],
      output_mappings = [wire_mapping 0 ''out'' ''out'' False,
                         wire_mapping 1 ''out'' ''w1'' False,
                         wire_mapping 2 ''out'' ''w2'' False,
                         wire_mapping 3 ''out'' ''nota'' False,
                         wire_mapping 4 ''out'' ''notb'' False]\<rparr>"

definition hdl_bit_example :: HDLChip where
  "hdl_bit_example =
     \<lparr>chip_def = \<lparr>def_name = ''Bit'',
                   inputs = [\<lparr>port_name = ''in'', port_width = 1\<rparr>,
                             \<lparr>port_name = ''load'', port_width = 1\<rparr>],
                   outputs = [\<lparr>port_name = ''out'', port_width = 1\<rparr>]\<rparr>,
      sub_chips = [''Mux'', ''DFF''],
      eval_order = [],
      input_mappings = [wire_mapping 0 ''a'' ''dffout'' True, wire_mapping 0 ''b'' ''in'' True,
                        wire_mapping 0 ''sel'' ''load'' True,
                        wire_mapping 1 ''in'' ''muxout'' True],
      output_mappings = [wire_mapping 0 ''out'' ''muxout'' False,
                         wire_mapping 1 ''out'' ''out'' False,
                         wire_mapping 1 ''out'' ''dffout'' False]\<rparr>"

definition hdl_output_read_example :: HDLChip where
  "hdl_output_read_example =
     \<lparr>chip_def = \<lparr>def_name = ''Twice'',
                   inputs = [\<lparr>port_name = ''in'', port_width = 1\<rparr>],
                   outputs = [\<lparr>port_name = ''out'', port_width = 1\<rparr>]\<rparr>,
      sub_chips = [''Not'', ''Not''],
      eval_order = [],
      input_mappings = [wire_mapping 0 ''in'' ''out'' True, wire_mapping 1 ''in'' ''in'' True],
      output_mappings = [wire_mapping 0 ''out'' ''w'' False, wire_mapping 1 ''out'' ''out'' False]\<rparr>"

section \<open>Bit tests on instruction words\<close>

lemma and_0x8000_iff: "((w::16 word) AND 0x8000 = 0) = (\<not> bit w 15)"
proof -
  have "(0x8000::16 word) = 2 ^ 15" by simp
  then show ?thesis by (simp only: and_exp_eq_0_iff_not_bit)
qed

lemma and_0x7F: "(x::16 word) AND 0x7F = take_bit 7 x"
proof -
  have "(0x7F::16 word) = mask 7" by (simp add: mask_eq_exp_minus_1)
  then show ?thesis by (simp add: take_bit_eq_mask)
qed

lemma and_0x7: "(x::16 word) AND 0x7 = take_bit 3 x"
proof -
  have "(0x7::16 word) = mask 3" by (simp add: mask_eq_exp_minus_1)
  then show ?thesis by (simp add: take_bit_eq_mask)
qed

lemma and_0x7FFF: "(x::16 word) AND 0x7FFF = take_bit 15 x"
proof -
  have "(0x7FFF::16 word) = mask 15" by (simp add: mask_eq_exp_minus_1)
  then show ?thesis by (simp add: take_bit_eq_mask)
qed

lemma test_bit_exp: "((x::'a::len word) AND 2 ^ n \<noteq> 0) = bit x n"
  by (simp only: and_exp_eq_0_iff_not_bit not_not)

lemma test_bit8_0: "((x::8 word) AND 0x1 \<noteq> 0) = bit x 0"
proof -
  have "(1::8 word) = 2 ^ 0" by simp
  then have "x AND 1 = x AND 2 ^ 0" by (simp only:)
  then show ?thesis by (simp only: test_bit_exp)
qed

lemma test_bit8_1: "((x::8 word) AND 0x2 \<noteq> 0) = bit x 1"
proof -
  have "(2::8 word) = 2 ^ 1" by simp
  then have "x AND 2 = x AND 2 ^ 1" by (simp only:)
  then show ?thesis by (simp only: test_bit_exp)
qed

lemma test_bit8_2: "((x::8 word) AND 0x4 \<noteq> 0) = bit x 2"
proof -
  have "(4::8 word) = 2 ^ 2" by simp
  then have "x AND 4 = x AND 2 ^ 2" by (simp only:)
  then show ?thesis by (simp only: test_bit_exp)
qed

lemma test_bit8_6: "((x::8 word) AND 0x40 \<noteq> 0) = bit x 6"
proof -
  have "(0x40::8 word) = 2 ^ 6" by simp
  then have "x AND 0x40 = x AND 2 ^ 6" by (simp only:)
  then show ?thesis by (simp only: test_bit_exp)
qed

lemmas test_bit8 = test_bit8_0 test_bit8_1 test_bit8_2 test_bit8_6

lemma decode_c_fields:
  assumes "bit w 15"
  shows "decode_instruction w =
    \<lparr>itype = C_INSTRUCTION, ivalue = 0, comp = ucast (take_bit 7 (drop_bit 6 w)),
     dest = \<lparr>dest_a = bit w 5, dest_d = bit w 4, dest_m = bit w 3\<rparr>,
     jump = ucast (take_bit 3 w), reads_memory = bit w 12\<rparr>"
  using assms
  by (simp add: decode_instruction_def decoded_zero_def and_0x8000_iff and_0x7F and_0x7 test_bit8
      Let_def bit_simps)

lemma low_bits_agree:
  fixes w w' :: "16 word"
  assumes "w AND 0x9FFF = w' AND 0x9FFF" and "k < 13"
  shows "bit w k = bit w' k"
proof -
  have m: "(0x9FFF::16 word) = mask 13 OR push_bit 15 1" by (simp add: mask_eq_exp_minus_1)
  have "bit (w AND 0x9FFF) k = bit (w' AND 0x9FFF) k" using assms(1) by simp
  then show ?thesis using assms(2) unfolding m by (simp add: bit_simps)
qed

lemma fields_agree:
  fixes w w' :: "16 word"
  assumes "w AND 0x9FFF = w' AND 0x9FFF"
  shows "take_bit 7 (drop_bit 6 w) = take_bit 7 (drop_bit 6 w')" and "take_bit 3 w = take_bit 3 w'"
  by (rule bit_eqI; simp add: bit_simps; use low_bits_agree[OF assms] in auto)+

text \<open>
  Claim C9. \<open>decode_instruction\<close> has no failing branch: it returns a decoded
  instruction for every 16-bit word. A word whose bit 15 is set is decoded as a
  C-instruction, whatever its bits 14 and 13 are: two such words that agree on every
  other bit decode to the same instruction, and \<open>comp\<close>, \<open>dest\<close>, \<open>jump\<close> and
  \<open>reads_memory\<close> are read off bits 12 to 0 alone.
\<close>

theorem decode_instruction_total:
  fixes w w' :: Word
  shows "itype (decode_instruction w) = (if bit w 15 then C_INSTRUCTION else A_INSTRUCTION)
    \<and> (bit w 15 \<and> bit w' 15 \<and> w AND 0x9FFF = w' AND 0x9FFF
          \<longrightarrow> decode_instruction w = decode_instruction w')
    \<and> (bit w 15 \<longrightarrow> decode_instruction w =
          \<lparr>itype = C_INSTRUCTION, ivalue = 0, comp = ucast (take_bit 7 (drop_bit 6 w)),
           dest = \<lparr>dest_a = bit w 5, dest_d = bit w 4, dest_m = bit w 3\<rparr>,
           jump = ucast (take_bit 3 w), reads_memory = bit w 12\<rparr>)"
proof (intro conjI impI)
  show "itype (decode_instruction w) = (if bit w 15 then C_INSTRUCTION else A_INSTRUCTION)"
    by (simp add: decode_instruction_def and_0x8000_iff Let_def)
next
  assume h: "bit w 15 \<and> bit w' 15 \<and> w AND 0x9FFF = w' AND 0x9FFF"
  then have eq: "w AND 0x9FFF = w' AND 0x9FFF" by simp
  show "decode_instruction w = decode_instruction w'"
    using h fields_agree[OF eq] low_bits_agree[OF eq, of 5] low_bits_agree[OF eq, of 4]
      low_bits_agree[OF eq, of 3] low_bits_agree[OF eq, of 12]
    by (simp add: decode_c_fields)
next
  assume "bit w 15"
  then show "decode_instruction w =
          \<lparr>itype = C_INSTRUCTION, ivalue = 0, comp = ucast (take_bit 7 (drop_bit 6 w)),
           dest = \<lparr>dest_a = bit w 5, dest_d = bit w 4, dest_m = bit w 3\<rparr>,
           jump = ucast (take_bit 3 w), reads_memory = bit w 12\<rparr>"
    by (rule decode_c_fields)
qed

theorem decode_instruction_total_witness:
  "bit (0x8C10 :: Word) 15 \<and> bit (0xEC10 :: Word) 15
   \<and> (0x8C10 :: Word) AND 0x9FFF = 0xEC10 AND 0x9FFF
   \<and> decode_instruction 0x8C10 = decode_instruction 0xEC10
   \<and> itype (decode_instruction 0x8C10) = C_INSTRUCTION"
proof -
  have h: "bit (0x8C10 :: Word) 15 \<and> bit (0xEC10 :: Word) 15
            \<and> (0x8C10 :: Word) AND 0x9FFF = 0xEC10 AND 0x9FFF"
    by simp
  note t = decode_instruction_total[of "0x8C10" "0xEC10"]
  have e1: "decode_instruction 0x8C10 = decode_instruction 0xEC10"
    by (rule mp[OF conjunct1[OF conjunct2[OF t]] h])
  have e2: "itype (decode_instruction 0x8C10) = C_INSTRUCTION"
    using h conjunct1[OF t] by simp
  show ?thesis by (intro conjI e1 e2 conjunct1[OF h] conjunct1[OF conjunct2[OF h]] conjunct2[OF conjunct2[OF h]])
qed


section \<open>Screen pixels\<close>

lemma test_bit_shift: "((drop_bit n (w::16 word)) AND 1 \<noteq> 0) = bit w n"
proof -
  have "(drop_bit n w AND 2 ^ 0 \<noteq> 0) = bit (drop_bit n w) 0" by (rule test_bit_exp)
  then show ?thesis by (simp add: bit_iff_odd_drop_bit)
qed

lemma row_col_unique:
  fixes y y' a b :: int
  assumes "y * 32 + a = y' * 32 + b" "0 \<le> a" "a < 32" "0 \<le> b" "b < 32"
  shows "y = y' \<and> a = b"
  using assms by presburger

lemma pixel_coords_inj:
  fixes x y x' y' :: int
  assumes "0 \<le> x" "x < 512" "0 \<le> x'" "x' < 512"
    and e: "y * 32 + x div 16 = y' * 32 + x' div 16" and m: "x mod 16 = x' mod 16"
  shows "x = x' \<and> y = y'"
proof -
  have "0 \<le> x div 16" "x div 16 < 32" "0 \<le> x' div 16" "x' div 16 < 32"
    using assms(1-4) by simp_all
  with e have "y = y' \<and> x div 16 = x' div 16" by (rule row_col_unique)
  moreover have "x = 16 * (x div 16) + x mod 16" "x' = 16 * (x' div 16) + x' mod 16" by simp_all
  ultimately show ?thesis using m by metis
qed


lemma pixel_word_same:
  "n < 16 \<Longrightarrow>
   ((drop_bit n (if b then (w::16 word) OR push_bit n 1 else w AND NOT (push_bit n 1))) AND 1 \<noteq> 0) = b"
  by (auto simp add: test_bit_shift bit_simps)

lemma pixel_word_other:
  "k \<noteq> n \<Longrightarrow>
   ((drop_bit k (if b then (w::16 word) OR push_bit n 1 else w AND NOT (push_bit n 1))) AND 1 \<noteq> 0)
     = ((drop_bit k w) AND 1 \<noteq> 0)"
  using bit_imp_le_length[of w k] by (auto simp add: test_bit_shift bit_simps)

lemma bit_offset_less: "nat ((x::int) mod 16) < 16"
  by simp

lemma get_pixel_set_pixel_same:
  assumes "0 \<le> x" "x < 512" "0 \<le> y" "y < 256"
  shows "get_pixel (set_pixel m x y b) x y = b"
  using assms pixel_word_same[OF bit_offset_less, of x b]
  by (simp add: get_pixel_def set_pixel_def Let_def)

lemma get_pixel_set_pixel_other:
  assumes r: "0 \<le> x" "x < 512" "0 \<le> y" "y < 256" and ne: "(x', y') \<noteq> (x, y)"
  shows "get_pixel (set_pixel m x y b) x' y' = get_pixel m x' y'"
proof (cases "0 \<le> x' \<and> x' < 512 \<and> 0 \<le> y' \<and> y' < 256")
  case False
  then show ?thesis by (auto simp add: get_pixel_def)
next
  case True
  show ?thesis
  proof (cases "y' * 32 + x' div 16 = y * 32 + x div 16")
    case False
    then show ?thesis using r True by (simp add: get_pixel_def set_pixel_def Let_def)
  next
    case same: True
    have "x' mod 16 \<noteq> x mod 16"
      using pixel_coords_inj[of x' x y' y] True r same ne by auto
    then have "nat (x' mod 16) \<noteq> nat (x mod 16)" by simp
    from pixel_word_other[OF this, of b] show ?thesis
      using r True same by (simp add: get_pixel_def set_pixel_def Let_def)
  qed
qed

lemma VMMemory_get_pixel_set_pixel_same:
  assumes "0 \<le> x" "x < 512" "0 \<le> y" "y < 256"
  shows "VMMemory_get_pixel (VMMemory_set_pixel m x y b) x y = b"
  using assms pixel_word_same[OF bit_offset_less, of x b]
  by (simp add: VMMemory_get_pixel_def VMMemory_set_pixel_def Let_def)

lemma VMMemory_get_pixel_set_pixel_other:
  assumes r: "0 \<le> x" "x < 512" "0 \<le> y" "y < 256" and ne: "(x', y') \<noteq> (x, y)"
  shows "VMMemory_get_pixel (VMMemory_set_pixel m x y b) x' y' = VMMemory_get_pixel m x' y'"
proof (cases "0 \<le> x' \<and> x' < 512 \<and> 0 \<le> y' \<and> y' < 256")
  case False
  then show ?thesis by (auto simp add: VMMemory_get_pixel_def)
next
  case True
  show ?thesis
  proof (cases "y' * 32 + x' div 16 = y * 32 + x div 16")
    case False
    then show ?thesis using r True
      by (simp add: VMMemory_get_pixel_def VMMemory_set_pixel_def Let_def)
  next
    case same: True
    have "x' mod 16 \<noteq> x mod 16"
      using pixel_coords_inj[of x' x y' y] True r same ne by auto
    then have "nat (x' mod 16) \<noteq> nat (x mod 16)" by simp
    from pixel_word_other[OF this, of b] show ?thesis
      using r True same by (simp add: VMMemory_get_pixel_def VMMemory_set_pixel_def Let_def)
  qed
qed

text \<open>
  Claim C10. For \<open>x\<close> in \<open>[0, 512)\<close>, \<open>y\<close> in \<open>[0, 256)\<close> and a boolean \<open>b\<close>: after
  \<open>set_pixel(x, y, b)\<close>, \<open>get_pixel(x, y)\<close> returns \<open>b\<close> and \<open>get_pixel\<close> returns what it
  returned before at every other coordinate. With a coordinate outside those ranges
  \<open>set_pixel\<close> leaves the memory as it is and \<open>get_pixel\<close> returns false. Both hold for
  the CPU memory and for the VM memory.
\<close>

theorem set_pixel_get_pixel:
  "(0 \<le> x \<and> x < 512 \<and> 0 \<le> y \<and> y < 256 \<longrightarrow>
      get_pixel (set_pixel cm x y b) x y = b
      \<and> VMMemory_get_pixel (VMMemory_set_pixel vm x y b) x y = b
      \<and> ((x', y') \<noteq> (x, y) \<longrightarrow>
           get_pixel (set_pixel cm x y b) x' y' = get_pixel cm x' y'
           \<and> VMMemory_get_pixel (VMMemory_set_pixel vm x y b) x' y' = VMMemory_get_pixel vm x' y'))
   \<and> (\<not> (0 \<le> x \<and> x < 512 \<and> 0 \<le> y \<and> y < 256) \<longrightarrow>
      set_pixel cm x y b = cm \<and> VMMemory_set_pixel vm x y b = vm
      \<and> get_pixel cm x y = False \<and> VMMemory_get_pixel vm x y = False)"
proof (intro conjI impI)
  assume "\<not> (0 \<le> x \<and> x < 512 \<and> 0 \<le> y \<and> y < 256)"
  then show "set_pixel cm x y b = cm" "VMMemory_set_pixel vm x y b = vm"
    "get_pixel cm x y = False" "VMMemory_get_pixel vm x y = False"
    by (auto simp add: set_pixel_def VMMemory_set_pixel_def get_pixel_def VMMemory_get_pixel_def)
next
  assume r: "0 \<le> x \<and> x < 512 \<and> 0 \<le> y \<and> y < 256"
  then show "get_pixel (set_pixel cm x y b) x y = b"
    by (simp add: get_pixel_set_pixel_same)
  from r show "VMMemory_get_pixel (VMMemory_set_pixel vm x y b) x y = b"
    by (simp add: VMMemory_get_pixel_set_pixel_same)
  assume ne: "(x', y') \<noteq> (x, y)"
  from r ne show "get_pixel (set_pixel cm x y b) x' y' = get_pixel cm x' y'"
    by (intro get_pixel_set_pixel_other) auto
  from r ne show "VMMemory_get_pixel (VMMemory_set_pixel vm x y b) x' y' = VMMemory_get_pixel vm x' y'"
    by (intro VMMemory_get_pixel_set_pixel_other) auto
qed


theorem set_pixel_get_pixel_witness:
  "(0::int) \<le> 5 \<and> (5::int) < 512 \<and> (0::int) \<le> 3 \<and> (3::int) < 256 \<and> ((6::int), (3::int)) \<noteq> (5, 3)
   \<and> get_pixel (set_pixel CPUMemory_new 5 3 True) 5 3 = True
   \<and> VMMemory_get_pixel (VMMemory_set_pixel VMMemory_new 5 3 True) 5 3 = True
   \<and> get_pixel (set_pixel CPUMemory_new 5 3 True) 6 3 = get_pixel CPUMemory_new 6 3
   \<and> VMMemory_get_pixel (VMMemory_set_pixel VMMemory_new 5 3 True) 6 3 = VMMemory_get_pixel VMMemory_new 6 3
   \<and> \<not> (0 \<le> (512::int) \<and> (512::int) < 512 \<and> (0::int) \<le> 3 \<and> (3::int) < 256)
   \<and> set_pixel CPUMemory_new 512 3 True = CPUMemory_new
   \<and> VMMemory_set_pixel VMMemory_new 512 3 True = VMMemory_new
   \<and> get_pixel CPUMemory_new 512 3 = False \<and> VMMemory_get_pixel VMMemory_new 512 3 = False"
  using set_pixel_get_pixel[where x = 5 and y = 3 and cm = CPUMemory_new and b = True
          and vm = VMMemory_new and x' = 6 and y' = 3]
        set_pixel_get_pixel[where x = 512 and y = 3 and cm = CPUMemory_new and b = True
          and vm = VMMemory_new and x' = 6 and y' = 3]
  by simp


section \<open>Loading the ROM\<close>

lemma parse_bits_binary:
  "set cs \<subseteq> {CHR ''0'', CHR ''1''} \<Longrightarrow> \<exists>w. parse_bits cs line_number i r = Inr w"
  by (induction cs arbitrary: i r) auto

lemma parse_bits_line_number:
  "parse_bits cs line_number i r = Inr w \<Longrightarrow> parse_bits cs line_number' i r = Inr w"
  by (induction cs arbitrary: i r) (auto split: if_splits)

lemma parse_bits_first_bad:
  assumes "set good \<subseteq> {CHR ''0'', CHR ''1''}" and "c \<noteq> CHR ''0''" and "c \<noteq> CHR ''1''"
  shows "parse_bits (good @ c # rest) line_number i r =
           Inl (ParseError ''<rom>'' line_number (invalid_character_message c (i + length good + 1)))"
  using assms by (induction good arbitrary: i r) auto

lemma parse_binary_line_binary:
  "is_binary_line t \<Longrightarrow> \<exists>w. parse_binary_line t line_number = Inr w"
  by (simp add: is_binary_line_def parse_binary_line_def parse_bits_binary)

lemma parse_binary_line_line_number:
  "parse_binary_line t line_number = Inr w \<Longrightarrow> parse_binary_line t line_number' = Inr w"
  by (auto simp add: parse_binary_line_def split: if_splits intro: parse_bits_line_number)

lemma load_rom_lines_success:
  assumes "load_rom_lines ls line_number m = Inr m'"
  shows "program_size m' = program_size m + length (filter (\<lambda>t. t \<noteq> []) (map trim_trailing ls))
         \<and> screen_dirty m' = screen_dirty m \<and> ram m' = ram m"
  using assms
proof (induction ls arbitrary: line_number m)
  case Nil
  then show ?case by simp
next
  case (Cons l ls)
  show ?case
  proof (cases "trim_trailing l = []")
    case True
    with Cons.prems have "load_rom_lines ls (line_number + 1) m = Inr m'" by simp
    from Cons.IH[OF this] True show ?thesis by simp
  next
    case False
    with Cons.prems obtain w where
      r: "load_rom_lines ls (line_number + 1)
            (m\<lparr>rom := (rom m)(program_size m := w), program_size := program_size m + 1\<rparr>) = Inr m'"
      by (auto simp add: Let_def split: if_splits sum.splits)
    from Cons.IH[OF r] False show ?thesis by simp
  qed
qed

lemma load_rom_lines_binary:
  assumes "\<forall>l \<in> set ls. trim_trailing l = [] \<or> is_binary_line (trim_trailing l)"
    and "program_size m + length (filter (\<lambda>t. t \<noteq> []) (map trim_trailing ls)) \<le> ROM_SIZE"
  shows "\<exists>m'. load_rom_lines ls line_number m = Inr m'"
  using assms
proof (induction ls arbitrary: line_number m)
  case Nil
  then show ?case by simp
next
  case (Cons l ls)
  show ?case
  proof (cases "trim_trailing l = []")
    case True
    with Cons.prems Cons.IH[of m "line_number + 1"] show ?thesis by simp
  next
    case False
    with Cons.prems have b: "is_binary_line (trim_trailing l)" by simp
    then obtain w where w: "parse_binary_line (trim_trailing l) (line_number + 1) = Inr w"
      using parse_binary_line_binary by blast
    let ?m1 = "m\<lparr>rom := (rom m)(program_size m := w), program_size := program_size m + 1\<rparr>"
    from Cons.prems False have "\<exists>m'. load_rom_lines ls (line_number + 1) ?m1 = Inr m'"
      by (intro Cons.IH) auto
    with w False Cons.prems show ?thesis by (simp add: Let_def)
  qed
qed

lemma load_rom_lines_first_bad:
  assumes "\<forall>l \<in> set pre. trim_trailing l = [] \<or> is_binary_line (trim_trailing l)"
    and "program_size m + length (filter (\<lambda>t. t \<noteq> []) (map trim_trailing pre)) < ROM_SIZE"
    and "trim_trailing l \<noteq> []"
    and "parse_binary_line (trim_trailing l) (line_number + length pre + 1) = Inl e"
  shows "load_rom_lines (pre @ l # post) line_number m = Inl e"
  using assms
proof (induction pre arbitrary: line_number m)
  case Nil
  then show ?case by (simp add: Let_def)
next
  case (Cons p pre)
  show ?case
  proof (cases "trim_trailing p = []")
    case True
    with Cons.prems Cons.IH[of m "line_number + 1"] show ?thesis by simp
  next
    case False
    with Cons.prems have b: "is_binary_line (trim_trailing p)" by simp
    then obtain w where w: "parse_binary_line (trim_trailing p) (line_number + 1) = Inr w"
      using parse_binary_line_binary by blast
    let ?m1 = "m\<lparr>rom := (rom m)(program_size m := w), program_size := program_size m + 1\<rparr>"
    from Cons.prems False have "load_rom_lines (pre @ l # post) (line_number + 1) ?m1 = Inl e"
      by (intro Cons.IH) auto
    with w False Cons.prems show ?thesis by (simp add: Let_def)
  qed
qed

lemma load_rom_success:
  "load_rom instructions m = Inr m' \<Longrightarrow>
     program_size m' = length instructions \<and> screen_dirty m' = screen_dirty m"
  by (auto simp add: load_rom_def split: if_splits)

lemma load_rom_lines_rom:
  assumes "load_rom_lines ls line_number m = Inr m'"
  shows "(\<forall>j < program_size m. rom m' j = rom m j)
       \<and> (\<forall>i < length (filter (\<lambda>t. t \<noteq> []) (map trim_trailing ls)).
             parse_binary_line (filter (\<lambda>t. t \<noteq> []) (map trim_trailing ls) ! i) line_number'
               = Inr (rom m' (program_size m + i)))"
  using assms
proof (induction ls arbitrary: line_number m)
  case Nil
  then show ?case by simp
next
  case (Cons l ls)
  show ?case
  proof (cases "trim_trailing l = []")
    case True
    with Cons.prems have "load_rom_lines ls (line_number + 1) m = Inr m'" by simp
    from Cons.IH[OF this] True show ?thesis by simp
  next
    case False
    with Cons.prems obtain w where
      w: "parse_binary_line (trim_trailing l) (line_number + 1) = Inr w" and
      r: "load_rom_lines ls (line_number + 1)
            (m\<lparr>rom := (rom m)(program_size m := w), program_size := program_size m + 1\<rparr>) = Inr m'"
      by (auto simp add: Let_def split: if_splits sum.splits)
    note ih = Cons.IH[OF r]
    from ih have old: "\<forall>j < program_size m + 1. rom m' j =
        ((rom m)(program_size m := w)) j" by simp
    then have here: "rom m' (program_size m) = w" by simp
    from old have below: "\<forall>j < program_size m. rom m' j = rom m j" by simp
    have w': "parse_binary_line (trim_trailing l) line_number' = Inr w"
      using w by (rule parse_binary_line_line_number)
    have "parse_binary_line ((trim_trailing l # filter (\<lambda>t. t \<noteq> []) (map trim_trailing ls)) ! i) line_number'
               = Inr (rom m' (program_size m + i))"
      if "i < Suc (length (filter (\<lambda>t. t \<noteq> []) (map trim_trailing ls)))" for i
    proof (cases i)
      case 0
      then show ?thesis using w' here by simp
    next
      case (Suc k)
      with that ih show ?thesis by simp
    qed
    with below False show ?thesis by simp
  qed
qed

lemma dirty_after_screen_write: "screen_dirty memory_after_screen_write"
  by (simp add: memory_after_screen_write_def write_ram_def)


lemmas load_eval = load_rom_string_def getlines_def trim_trailing.simps is_trailing_space_def
  parse_binary_line_def Let_def load_rom_def

text \<open>
  Claim C5, as the code has it. A successful ROM load, from binary text lines or from
  pre-decoded words, sets \<open>program_size\<close> to the number of loaded instructions and
  leaves the screen dirty flag as it was.
\<close>

theorem load_sets_program_size:
  "(load_rom instructions m = Inr m' \<longrightarrow>
      program_size m' = length instructions \<and> screen_dirty m' = screen_dirty m)
   \<and> (load_rom_string hack_text m = Inr m'' \<longrightarrow>
      program_size m'' = length (loaded_lines hack_text) \<and> screen_dirty m'' = screen_dirty m)"
proof (intro conjI impI)
  assume "load_rom instructions m = Inr m'"
  from load_rom_success[OF this]
  show "program_size m' = length instructions" "screen_dirty m' = screen_dirty m" by simp_all
next
  assume "load_rom_string hack_text m = Inr m''"
  then have "load_rom_lines (getlines hack_text) 0 (m\<lparr>rom := (\<lambda>_. 0), program_size := 0\<rparr>) = Inr m''"
    by (simp add: load_rom_string_def)
  from load_rom_lines_success[OF this]
  show "program_size m'' = length (loaded_lines hack_text)" "screen_dirty m'' = screen_dirty m"
    by (simp_all add: loaded_lines_def)
qed


theorem load_sets_program_size_witness:
  "load_rom [0x0001, 0xEC10] memory_after_screen_write
      = Inr (projr (load_rom [0x0001, 0xEC10] memory_after_screen_write))
   \<and> program_size (projr (load_rom [0x0001, 0xEC10] memory_after_screen_write)) = 2
   \<and> load_rom_string ''0000000000000001\<newline>\<newline>1110110000010000 \<newline>'' memory_after_screen_write
      = Inr (projr (load_rom_string ''0000000000000001\<newline>\<newline>1110110000010000 \<newline>'' memory_after_screen_write))
   \<and> program_size (projr (load_rom_string ''0000000000000001\<newline>\<newline>1110110000010000 \<newline>''
        memory_after_screen_write)) = 2"
proof -
  let ?m = memory_after_screen_write
  let ?t = "''0000000000000001\<newline>\<newline>1110110000010000 \<newline>''"
  have a: "load_rom [0x0001, 0xEC10] ?m = Inr (projr (load_rom [0x0001, 0xEC10] ?m))"
    by (simp add: load_rom_def)
  have b: "load_rom_string ?t ?m = Inr (projr (load_rom_string ?t ?m))"
    by (simp add: load_eval)
  have n: "length (loaded_lines ?t) = 2"
    by (simp add: loaded_lines_def load_eval)
  note t = load_sets_program_size[where instructions = "[0x0001, 0xEC10]" and m = ?m
      and m' = "projr (load_rom [0x0001, 0xEC10] ?m)" and hack_text = ?t
      and m'' = "projr (load_rom_string ?t ?m)"]
  from mp[OF conjunct1[OF t] a] have c1: "program_size (projr (load_rom [0x0001, 0xEC10] ?m)) = 2"
    by simp
  from mp[OF conjunct2[OF t] b] n have c2: "program_size (projr (load_rom_string ?t ?m)) = 2"
    by simp
  show ?thesis by (intro conjI a b c1 c2)
qed


text \<open>
  Claim C5 as the specification states it fails: a load into a memory whose dirty flag
  is set succeeds and leaves the flag set.
\<close>

theorem load_keeps_dirty_flag_counterexample:
  "screen_dirty memory_after_screen_write
   \<and> (case load_rom [0x0001, 0xEC10] memory_after_screen_write of
         Inr m \<Rightarrow> screen_dirty m \<and> program_size m = 2 | Inl e \<Rightarrow> False)
   \<and> (case load_rom_string ''0000000000000001\<newline>1110110000010000\<newline>'' memory_after_screen_write of
         Inr m \<Rightarrow> screen_dirty m \<and> program_size m = 2 | Inl e \<Rightarrow> False)"
  by (simp add: load_eval dirty_after_screen_write)


lemma first_offending_char:
  assumes "\<not> set t \<subseteq> {CHR ''0'', CHR ''1''}"
  obtains good c rest where "t = good @ c # rest" "set good \<subseteq> {CHR ''0'', CHR ''1''}"
    "c \<noteq> CHR ''0''" "c \<noteq> CHR ''1''"
proof -
  from assms have "\<exists>x \<in> set t. \<not> (x = CHR ''0'' \<or> x = CHR ''1'')" by auto
  then obtain good c rest where s: "t = good @ c # rest"
    and c: "\<not> (c = CHR ''0'' \<or> c = CHR ''1'')"
    and g: "\<forall>y \<in> set good. \<not> \<not> (y = CHR ''0'' \<or> y = CHR ''1'')"
    by (rule split_list_first_propE)
  from g have "set good \<subseteq> {CHR ''0'', CHR ''1''}" by auto
  with s c that show thesis by simp
qed

lemma parse_binary_line_first_bad:
  assumes "length t = 16" "t = good @ c # rest" "set good \<subseteq> {CHR ''0'', CHR ''1''}"
    "c \<noteq> CHR ''0''" "c \<noteq> CHR ''1''"
  shows "parse_binary_line t line_number
        = Inl (ParseError ''<rom>'' line_number (invalid_character_message c (length good + 1)))"
proof -
  have "parse_bits (good @ c # rest) line_number 0 0
        = Inl (ParseError ''<rom>'' line_number (invalid_character_message c (0 + length good + 1)))"
    using assms(3-5) by (rule parse_bits_first_bad)
  with assms(1,2) show ?thesis by (simp add: parse_binary_line_def)
qed

lemma ParseError_inject: "(ParseError f n msg = ParseError f' n' msg') = (f = f' \<and> n = n' \<and> msg = msg')"
  by (simp add: ParseError_def)

lemma parse_binary_line_bad:
  assumes "\<not> is_binary_line t"
  shows "\<exists>msg. parse_binary_line t line_number = Inl (ParseError ''<rom>'' line_number msg)
         \<and> (length t \<noteq> 16 \<longrightarrow> msg = wrong_length_message t)
         \<and> (\<forall>good c rest. length t = 16 \<and> t = good @ c # rest
               \<and> set good \<subseteq> {CHR ''0'', CHR ''1''} \<and> c \<noteq> CHR ''0'' \<and> c \<noteq> CHR ''1''
               \<longrightarrow> msg = invalid_character_message c (length good + 1))"
proof (cases "length t = 16")
  case False
  then show ?thesis by (simp add: parse_binary_line_def)
next
  case True
  with assms have "\<not> set t \<subseteq> {CHR ''0'', CHR ''1''}" by (simp add: is_binary_line_def)
  then obtain good c rest where d: "t = good @ c # rest" "set good \<subseteq> {CHR ''0'', CHR ''1''}"
    "c \<noteq> CHR ''0''" "c \<noteq> CHR ''1''" by (rule first_offending_char)
  let ?msg = "invalid_character_message c (length good + 1)"
  have p: "parse_binary_line t line_number = Inl (ParseError ''<rom>'' line_number ?msg)"
    using True d by (rule parse_binary_line_first_bad)
  have "?msg = invalid_character_message c' (length good' + 1)"
    if "length t = 16 \<and> t = good' @ c' # rest'
               \<and> set good' \<subseteq> {CHR ''0'', CHR ''1''} \<and> c' \<noteq> CHR ''0'' \<and> c' \<noteq> CHR ''1''"
    for good' c' rest'
  proof -
    from that have "parse_binary_line t line_number
        = Inl (ParseError ''<rom>'' line_number (invalid_character_message c' (length good' + 1)))"
      by (elim conjE) (rule parse_binary_line_first_bad; assumption)
    with p show ?thesis by (simp add: ParseError_inject)
  qed
  then have "\<forall>good' c' rest'. length t = 16 \<and> t = good' @ c' # rest'
               \<and> set good' \<subseteq> {CHR ''0'', CHR ''1''} \<and> c' \<noteq> CHR ''0'' \<and> c' \<noteq> CHR ''1''
               \<longrightarrow> ?msg = invalid_character_message c' (length good' + 1)"
    by (intro allI impI)
  with p True show ?thesis by (intro exI[of _ ?msg]) simp
qed

subsection \<open>Texts given line by line\<close>

lemma getlines_from_line:
  "CHR 0x0A \<notin> set l \<Longrightarrow> getlines_from cur (l @ CHR 0x0A # rest) = (cur @ l) # getlines_from [] rest"
  by (induction l arbitrary: cur) auto

lemma getlines_from_last:
  "CHR 0x0A \<notin> set l \<Longrightarrow> getlines_from cur l = (if cur @ l = [] then [] else [cur @ l])"
  by (induction l arbitrary: cur) auto

lemma getlines_from_lines:
  assumes "\<forall>l \<in> set ls. CHR 0x0A \<notin> set l"
  shows "getlines_from [] (concat (map (\<lambda>l. l @ [CHR 0x0A]) ls) @ tail) = ls @ getlines_from [] tail"
  using assms
proof (induction ls)
  case Nil
  show ?case by simp
next
  case (Cons l ls)
  have "getlines_from [] (concat (map (\<lambda>l. l @ [CHR 0x0A]) (l # ls)) @ tail)
        = getlines_from [] (l @ CHR 0x0A # (concat (map (\<lambda>l. l @ [CHR 0x0A]) ls) @ tail))"
    by simp
  also have "\<dots> = ([] @ l) # getlines_from [] (concat (map (\<lambda>l. l @ [CHR 0x0A]) ls) @ tail)"
    using Cons.prems by (intro getlines_from_line) simp
  also have "\<dots> = (l # ls) @ getlines_from [] tail" using Cons by simp
  finally show ?case .
qed

lemma trim_trailing_blanks:
  assumes "set ws \<subseteq> {CHR 0x0D, CHR 0x20, CHR 0x09}"
    and "b = [] \<or> last b \<notin> {CHR 0x0D, CHR 0x20, CHR 0x09}"
  shows "trim_trailing (b @ ws) = b"
  using assms(1)
proof (induction ws rule: rev_induct)
  case Nil
  show ?case using assms(2) by (subst trim_trailing.simps) (auto simp add: is_trailing_space_def)
next
  case (snoc c ws)
  then have c: "is_trailing_space c" by (auto simp add: is_trailing_space_def)
  have "trim_trailing (b @ ws @ [c]) = trim_trailing (butlast (b @ ws @ [c]))"
    using c by (subst trim_trailing.simps) simp
  also have "butlast (b @ ws @ [c]) = b @ ws" by (simp add: butlast_append)
  finally show ?case using snoc by simp
qed

lemma line_split_trim: "line_split p \<Longrightarrow> trim_trailing (fst p @ snd p) = fst p"
  by (simp add: line_split_def trim_trailing_blanks)

lemma line_split_no_newline: "line_split p \<Longrightarrow> CHR 0x0A \<notin> set (fst p @ snd p)"
  by (auto simp add: line_split_def)

lemma hack_text_of_lines:
  "hack_text_of ls = concat (map (\<lambda>l. l @ [CHR 0x0A]) (map (\<lambda>p. fst p @ snd p) ls))"
  by (induction ls) (simp_all add: hack_text_of_def)

lemma trim_lines:
  "\<forall>p \<in> set ls. line_split p \<Longrightarrow> map trim_trailing (map (\<lambda>p. fst p @ snd p) ls) = map fst ls"
  by (induction ls) (simp_all add: line_split_trim)

lemma load_rom_lines_skip_last:
  "trim_trailing l = [] \<Longrightarrow> load_rom_lines (xs @ [l]) line_number m = load_rom_lines xs line_number m"
proof (induction xs arbitrary: line_number m)
  case Nil
  then show ?case by simp
next
  case (Cons x xs)
  then show ?case by (simp add: Let_def split: sum.splits)
qed

lemma load_rom_string_of_lines:
  assumes "\<forall>p \<in> set ls. line_split p"
    and "hack_text = hack_text_of ls \<or> hack_text @ [CHR 0x0A] = hack_text_of ls"
  shows "load_rom_string hack_text m
         = load_rom_lines (map (\<lambda>p. fst p @ snd p) ls) 0 (m\<lparr>rom := (\<lambda>_. 0), program_size := 0\<rparr>)"
proof -
  let ?lines = "map (\<lambda>p. fst p @ snd p) ls"
  have nn: "\<forall>l \<in> set ?lines. CHR 0x0A \<notin> set l"
    using assms(1) line_split_no_newline by auto
  from assms(2) show ?thesis
  proof
    assume "hack_text = hack_text_of ls"
    then have "getlines hack_text = ?lines"
      using getlines_from_lines[OF nn, of "[]"] by (simp add: getlines_def hack_text_of_lines)
    then show ?thesis by (simp add: load_rom_string_def)
  next
    assume h: "hack_text @ [CHR 0x0A] = hack_text_of ls"
    then have "ls \<noteq> []" by (auto simp add: hack_text_of_def)
    then obtain ls' p where ls: "ls = ls' @ [p]" by (metis rev_exhaust)
    let ?pre = "map (\<lambda>p. fst p @ snd p) ls'"
    let ?l = "fst p @ snd p"
    from h ls have "hack_text @ [CHR 0x0A] = (concat (map (\<lambda>l. l @ [CHR 0x0A]) ?pre) @ ?l) @ [CHR 0x0A]"
      by (simp add: hack_text_of_lines)
    then have t: "hack_text = concat (map (\<lambda>l. l @ [CHR 0x0A]) ?pre) @ ?l" by simp
    have nn': "\<forall>l \<in> set ?pre. CHR 0x0A \<notin> set l" using nn ls by simp
    have nl: "CHR 0x0A \<notin> set ?l" using nn ls by simp
    have g: "getlines hack_text = ?pre @ (if ?l = [] then [] else [?l])"
      unfolding getlines_def t using getlines_from_lines[OF nn', of ?l] getlines_from_last[OF nl, of "[]"]
      by simp
    show ?thesis
    proof (cases "?l = []")
      case True
      then have "trim_trailing ?l = []" by (simp add: trim_trailing.simps)
      from load_rom_lines_skip_last[OF this] g True ls show ?thesis
        by (simp add: load_rom_string_def)
    next
      case False
      with g have "getlines hack_text = ?pre @ [?l]" by (simp only: if_False)
      also have "\<dots> = ?lines" using ls by simp
      finally show ?thesis by (simp add: load_rom_string_def)
    qed
  qed
qed

lemma parse_bits_bits:
  assumes "parse_bits cs line_number i r = Inr w" and "i + length cs = 16"
  shows "\<forall>k<16. bit w k = (bit r k \<or> (k < length cs \<and> cs ! (length cs - 1 - k) = CHR ''1''))"
  using assms
proof (induction cs arbitrary: i r)
  case Nil
  then show ?case by simp
next
  case (Cons c cs)
  let ?n = "length cs"
  have n: "15 - i = ?n" "?n < 16" using Cons.prems(2) by simp_all
  have l: "i + 1 + length cs = 16" using Cons.prems(2) by simp
  show ?case
  proof (intro allI impI)
    fix k :: nat assume k: "k < 16"
    have idx: "(c # cs) ! (?n - k) = (if k = ?n then c else cs ! (?n - 1 - k))" if "k \<le> ?n"
      using that by (cases "k = ?n") (simp_all add: nth_Cons')
    show "bit w k = (bit r k \<or> (k < length (c # cs) \<and> (c # cs) ! (length (c # cs) - 1 - k) = CHR ''1''))"
    proof (cases "c = CHR ''1''")
      case True
      with Cons.prems(1) have p: "parse_bits cs line_number (i + 1) (r OR push_bit ?n 1) = Inr w"
        by (simp add: n)
      from Cons.IH[OF p l, rule_format, OF k]
      have "bit w k = (bit (r OR push_bit ?n 1) k \<or> (k < ?n \<and> cs ! (?n - 1 - k) = CHR ''1''))" .
      also have "bit (r OR push_bit ?n (1::Word)) k = (bit r k \<or> k = ?n)"
        using k n(2) by (auto simp add: bit_or_iff bit_exp_iff)
      finally show ?thesis using True idx by (cases "k = ?n") auto
    next
      case False
      with Cons.prems(1) have c0: "c = CHR ''0''" by (simp split: if_splits)
      with Cons.prems(1) have p: "parse_bits cs line_number (i + 1) r = Inr w" by simp
      from Cons.IH[OF p l, rule_format, OF k]
      have "bit w k = (bit r k \<or> (k < ?n \<and> cs ! (?n - 1 - k) = CHR ''1''))" .
      then show ?thesis using c0 idx by (cases "k = ?n") auto
    qed
  qed
qed

lemma parse_binary_line_bits:
  assumes "parse_binary_line t line_number = Inr w"
  shows "\<forall>k<16. bit w k = (t ! (15 - k) = CHR ''1'')"
proof -
  from assms have l: "length t = 16" and p: "parse_bits t line_number 0 0 = Inr w"
    by (simp_all add: parse_binary_line_def split: if_splits)
  from parse_bits_bits[OF p] l show ?thesis by simp
qed

lemma to_string_ROM_SIZE: "to_string ROM_SIZE = ''32768''"
  by (simp add: to_string.simps digit_char_def)

lemma load_rom_lines_too_large:
  assumes "\<forall>l \<in> set pre. trim_trailing l = [] \<or> is_binary_line (trim_trailing l)"
    and "program_size m + length (filter (\<lambda>t. t \<noteq> []) (map trim_trailing pre)) = ROM_SIZE"
    and "trim_trailing l \<noteq> []"
  shows "load_rom_lines (pre @ l # post) line_number m
         = Inl (ParseError ''<rom>'' (line_number + length pre + 1)
                  ''Program too large! ROM can hold at most 32768 instructions.'')"
  using assms
proof (induction pre arbitrary: line_number m)
  case Nil
  then show ?case by (simp add: Let_def to_string_ROM_SIZE)
next
  case (Cons p pre)
  show ?case
  proof (cases "trim_trailing p = []")
    case True
    with Cons.prems Cons.IH[of m "line_number + 1"] show ?thesis by simp
  next
    case False
    with Cons.prems have b: "is_binary_line (trim_trailing p)" by simp
    then obtain w where w: "parse_binary_line (trim_trailing p) (line_number + 1) = Inr w"
      using parse_binary_line_binary by blast
    let ?m1 = "m\<lparr>rom := (rom m)(program_size m := w), program_size := program_size m + 1\<rparr>"
    from Cons.prems False have "load_rom_lines (pre @ l # post) (line_number + 1) ?m1
        = Inl (ParseError ''<rom>'' (line_number + 1 + length pre + 1)
                  ''Program too large! ROM can hold at most 32768 instructions.'')"
      by (intro Cons.IH) auto
    moreover have "program_size m < ROM_SIZE" using Cons.prems(2) False by simp
    ultimately show ?thesis using w False by (simp add: Let_def)
  qed
qed

lemma instruction_lines_trim:
  assumes "\<forall>p \<in> set ls. line_split p"
  shows "filter (\<lambda>t. t \<noteq> []) (map trim_trailing (map (\<lambda>p. fst p @ snd p) ls)) = instruction_lines ls"
  by (simp only: trim_lines[OF assms] instruction_lines_def)

lemma instruction_lines_binary:
  assumes "\<forall>p \<in> set ls. line_split p" and "\<forall>t \<in> set (instruction_lines ls). is_binary_line t"
  shows "\<forall>l \<in> set (map (\<lambda>p. fst p @ snd p) ls). trim_trailing l = [] \<or> is_binary_line (trim_trailing l)"
proof
  fix l assume "l \<in> set (map (\<lambda>p. fst p @ snd p) ls)"
  then obtain p where p: "p \<in> set ls" and l: "l = fst p @ snd p" by auto
  from assms(1) p have t: "trim_trailing l = fst p" unfolding l by (simp add: line_split_trim)
  show "trim_trailing l = [] \<or> is_binary_line (trim_trailing l)"
  proof (cases "fst p = []")
    case True
    with t show ?thesis by simp
  next
    case False
    with p have "fst p \<in> set (instruction_lines ls)" by (simp add: instruction_lines_def)
    with assms(2) t show ?thesis by simp
  qed
qed

text \<open>Every text is a text of lines in this sense, so the theorem speaks of every text.\<close>

lemma line_split_exists:
  assumes "CHR 0x0A \<notin> set l"
  shows "\<exists>b ws. l = b @ ws \<and> line_split (b, ws)"
  using assms
proof (induction l rule: rev_induct)
  case Nil
  have "[] = [] @ [] \<and> line_split ([], [])" by (simp add: line_split_def)
  then show ?case by - (rule exI, rule exI, assumption)
next
  case (snoc c l)
  from snoc.prems have "CHR 0x0A \<notin> set l" by simp
  from snoc.IH[OF this] obtain b ws where l: "l = b @ ws" and s: "line_split (b, ws)"
    by (elim exE conjE)
  show ?case
  proof (cases "c = CHR 0x0D \<or> c = CHR 0x20 \<or> c = CHR 0x09")
    case True
    have "l @ [c] = b @ (ws @ [c]) \<and> line_split (b, ws @ [c])"
      using l s True by (simp add: line_split_def)
    then show ?thesis by - (rule exI, rule exI, assumption)
  next
    case False
    have "l @ [c] = (l @ [c]) @ [] \<and> line_split (l @ [c], [])"
      using snoc.prems False by (simp add: line_split_def)
    then show ?thesis by - (rule exI, rule exI, assumption)
  qed
qed

lemma every_text_is_lines:
  "\<exists>ls. (\<forall>p \<in> set ls. line_split p) \<and> hack_text @ [CHR 0x0A] = hack_text_of ls"
proof (induction hack_text rule: length_induct)
  case (1 t)
  show ?case
  proof (cases "CHR 0x0A \<in> set t")
    case False
    from line_split_exists[OF this] obtain b ws where l: "t = b @ ws" and s: "line_split (b, ws)"
      by (elim exE conjE)
    have "(\<forall>p \<in> set [(b, ws)]. line_split p) \<and> t @ [CHR 0x0A] = hack_text_of [(b, ws)]"
      using l s by (simp add: hack_text_of_def)
    then show ?thesis by (rule exI)
  next
    case True
    from split_list_first[OF this] obtain l rest where t: "t = l @ CHR 0x0A # rest"
      and n: "CHR 0x0A \<notin> set l" by (elim exE conjE)
    from line_split_exists[OF n] obtain b ws where l: "l = b @ ws" and s: "line_split (b, ws)"
      by (elim exE conjE)
    have "length rest < length t" using t by simp
    from 1[rule_format, OF this] obtain ls where ls: "\<forall>p \<in> set ls. line_split p"
      and r: "rest @ [CHR 0x0A] = hack_text_of ls" by (elim exE conjE)
    have "(\<forall>p \<in> set ((b, ws) # ls). line_split p) \<and> t @ [CHR 0x0A] = hack_text_of ((b, ws) # ls)"
      using t l s ls r[symmetric] by (simp add: hack_text_of_def)
    then show ?thesis by (rule exI)
  qed
qed

text \<open>
  Claim C6, as the code has it. The text is taken line by line, each line a body
  followed by carriage returns, spaces and tabs, the newline after the last line
  present or not; every text is of this form. The loader ignores these trailing characters and nothing else: a body
  keeps what is at its front and any other character at its end. Empty bodies are
  skipped. When every other body is 16 characters \<open>0\<close> or \<open>1\<close> and at most 32768 of them
  remain, the load succeeds and stores them in their order, bit \<open>15 - j\<close> of the word
  being set when character \<open>j\<close> is \<open>1\<close>. Otherwise the first body that is not such a
  line, with fewer than 32768 instructions before it, makes the load fail with a
  \<open>ParseError\<close> that carries the number of its line; the message names the first offending
  character and its position when the body has 16 characters, and the length and the
  text of the body when it has not. A body that is not empty after 32768 instructions
  makes the load fail with the \<open>ParseError\<close> \<open>Program too large\<close> at its line.
\<close>

theorem load_rom_string_lines:
  assumes "\<forall>p \<in> set ls. line_split p"
    and "hack_text = hack_text_of ls \<or> hack_text @ [CHR 0x0A] = hack_text_of ls"
  shows "((\<forall>t \<in> set (instruction_lines ls). is_binary_line t)
            \<and> length (instruction_lines ls) \<le> ROM_SIZE \<longrightarrow>
          (\<exists>m'. load_rom_string hack_text m = Inr m'
             \<and> program_size m' = length (instruction_lines ls)
             \<and> (\<forall>i < length (instruction_lines ls). \<forall>k<16.
                   bit (rom m' i) k = (instruction_lines ls ! i ! (15 - k) = CHR ''1''))))
       \<and> (ls = pre @ (body, blanks) # post
            \<and> (\<forall>t \<in> set (instruction_lines pre). is_binary_line t)
            \<and> length (instruction_lines pre) < ROM_SIZE \<and> body \<noteq> [] \<and> \<not> is_binary_line body \<longrightarrow>
          (\<exists>msg. load_rom_string hack_text m = Inl (ParseError ''<rom>'' (length pre + 1) msg)
             \<and> (length body \<noteq> 16 \<longrightarrow>
                  msg = ''Expected 16-bit binary instruction (16 characters of '' @ [CHR 0x27] @ ''0''
                        @ [CHR 0x27] @ '' and '' @ [CHR 0x27] @ ''1'' @ [CHR 0x27] @ ''), got ''
                        @ to_string (length body) @ '' characters: '' @ [CHR 0x22] @ body @ [CHR 0x22])
             \<and> (\<forall>good c rest. length body = 16 \<and> body = good @ c # rest
                   \<and> set good \<subseteq> {CHR ''0'', CHR ''1''} \<and> c \<noteq> CHR ''0'' \<and> c \<noteq> CHR ''1''
                   \<longrightarrow> msg = ''Invalid character '' @ [CHR 0x27, c, CHR 0x27] @ '' at position ''
                             @ to_string (length good + 1) @ ''. Only '' @ [CHR 0x27] @ ''0''
                             @ [CHR 0x27] @ '' and '' @ [CHR 0x27] @ ''1'' @ [CHR 0x27]
                             @ '' are allowed in .hack files.'')))
       \<and> (ls = pre @ (body, blanks) # post
            \<and> (\<forall>t \<in> set (instruction_lines pre). is_binary_line t)
            \<and> length (instruction_lines pre) = ROM_SIZE \<and> body \<noteq> [] \<longrightarrow>
          load_rom_string hack_text m
            = Inl (ParseError ''<rom>'' (length pre + 1)
                     ''Program too large! ROM can hold at most 32768 instructions.''))"
proof (intro conjI impI)
  let ?f = "\<lambda>p. fst p @ snd p"
  let ?m0 = "m\<lparr>rom := (\<lambda>_. 0), program_size := 0\<rparr>"
  note K = load_rom_string_of_lines[OF assms, of m]
  note T = instruction_lines_trim[OF assms(1)]
  assume h: "(\<forall>t \<in> set (instruction_lines ls). is_binary_line t)
            \<and> length (instruction_lines ls) \<le> ROM_SIZE"
  note all = instruction_lines_binary[OF assms(1) conjunct1[OF h]]
  have sz: "program_size ?m0 + length (filter (\<lambda>t. t \<noteq> []) (map trim_trailing (map ?f ls))) \<le> ROM_SIZE"
    using conjunct2[OF h] unfolding T by simp
  from all sz have "\<exists>m'. load_rom_lines (map ?f ls) 0 ?m0 = Inr m'"
    by (rule load_rom_lines_binary)
  then obtain m' where m': "load_rom_lines (map ?f ls) 0 ?m0 = Inr m'" ..
  have l: "load_rom_string hack_text m = Inr m'" unfolding K by (rule m')
  have ps: "program_size m' = length (instruction_lines ls)"
    using load_rom_lines_success[OF m'] unfolding T by simp
  have parsed: "\<forall>i < length (instruction_lines ls).
      parse_binary_line (instruction_lines ls ! i) 0 = Inr (rom m' i)"
    using load_rom_lines_rom[OF m', of 0] unfolding T by simp
  have bits: "\<forall>i < length (instruction_lines ls). \<forall>k<16.
                   bit (rom m' i) k = (instruction_lines ls ! i ! (15 - k) = CHR ''1'')"
  proof (intro allI impI)
    fix i k :: nat assume i: "i < length (instruction_lines ls)" and k: "k < 16"
    from parsed[rule_format, OF i]
    have "parse_binary_line (instruction_lines ls ! i) 0 = Inr (rom m' i)" .
    from parse_binary_line_bits[OF this, rule_format, OF k]
    show "bit (rom m' i) k = (instruction_lines ls ! i ! (15 - k) = CHR ''1'')" .
  qed
  show "\<exists>m'. load_rom_string hack_text m = Inr m'
             \<and> program_size m' = length (instruction_lines ls)
             \<and> (\<forall>i < length (instruction_lines ls). \<forall>k<16.
                   bit (rom m' i) k = (instruction_lines ls ! i ! (15 - k) = CHR ''1''))"
    by (rule exI[where x = m'], intro conjI l ps bits)
next
  let ?f = "\<lambda>p. fst p @ snd p"
  let ?m0 = "m\<lparr>rom := (\<lambda>_. 0), program_size := 0\<rparr>"
  note K = load_rom_string_of_lines[OF assms, of m]
  assume h: "ls = pre @ (body, blanks) # post
            \<and> (\<forall>t \<in> set (instruction_lines pre). is_binary_line t)
            \<and> length (instruction_lines pre) < ROM_SIZE \<and> body \<noteq> [] \<and> \<not> is_binary_line body"
  note g = conjunct1[OF h]
  note pb = conjunct1[OF conjunct2[OF h]]
  note sz = conjunct1[OF conjunct2[OF conjunct2[OF h]]]
  note ne = conjunct1[OF conjunct2[OF conjunct2[OF conjunct2[OF h]]]]
  note nb = conjunct2[OF conjunct2[OF conjunct2[OF conjunct2[OF h]]]]
  have sp: "\<forall>p \<in> set pre. line_split p" and sb: "line_split (body, blanks)"
    using assms(1) unfolding g by simp_all
  have tb: "trim_trailing (body @ blanks) = body" using line_split_trim[OF sb] by simp
  note all = instruction_lines_binary[OF sp pb]
  have sz': "program_size ?m0 + length (filter (\<lambda>t. t \<noteq> []) (map trim_trailing (map ?f pre))) < ROM_SIZE"
    using sz unfolding instruction_lines_trim[OF sp] by simp
  have ne': "trim_trailing (body @ blanks) \<noteq> []" unfolding tb by (rule ne)
  from parse_binary_line_bad[OF nb, of "length pre + 1"] obtain msg where
    e: "parse_binary_line body (length pre + 1) = Inl (ParseError ''<rom>'' (length pre + 1) msg)"
    and r1: "length body \<noteq> 16 \<longrightarrow> msg = wrong_length_message body"
    and r2: "\<forall>good c rest. length body = 16 \<and> body = good @ c # rest
               \<and> set good \<subseteq> {CHR ''0'', CHR ''1''} \<and> c \<noteq> CHR ''0'' \<and> c \<noteq> CHR ''1''
               \<longrightarrow> msg = invalid_character_message c (length good + 1)"
    by (elim exE conjE)
  have e': "parse_binary_line (trim_trailing (body @ blanks)) (0 + length (map ?f pre) + 1)
      = Inl (ParseError ''<rom>'' (length pre + 1) msg)"
    unfolding tb using e by simp
  have "load_rom_lines (map ?f pre @ (body @ blanks) # map ?f post) 0 ?m0
      = Inl (ParseError ''<rom>'' (length pre + 1) msg)"
    using all sz' ne' e' by (rule load_rom_lines_first_bad)
  then have l: "load_rom_string hack_text m = Inl (ParseError ''<rom>'' (length pre + 1) msg)"
    unfolding K g by simp
  have c1: "length body \<noteq> 16 \<longrightarrow>
                  msg = ''Expected 16-bit binary instruction (16 characters of '' @ [CHR 0x27] @ ''0''
                        @ [CHR 0x27] @ '' and '' @ [CHR 0x27] @ ''1'' @ [CHR 0x27] @ ''), got ''
                        @ to_string (length body) @ '' characters: '' @ [CHR 0x22] @ body @ [CHR 0x22]"
    using r1 by (simp add: wrong_length_message_def)
  have c2: "\<forall>good c rest. length body = 16 \<and> body = good @ c # rest
                   \<and> set good \<subseteq> {CHR ''0'', CHR ''1''} \<and> c \<noteq> CHR ''0'' \<and> c \<noteq> CHR ''1''
                   \<longrightarrow> msg = ''Invalid character '' @ [CHR 0x27, c, CHR 0x27] @ '' at position ''
                             @ to_string (length good + 1) @ ''. Only '' @ [CHR 0x27] @ ''0''
                             @ [CHR 0x27] @ '' and '' @ [CHR 0x27] @ ''1'' @ [CHR 0x27]
                             @ '' are allowed in .hack files.''"
  proof (intro allI impI)
    fix good c rest
    assume a: "length body = 16 \<and> body = good @ c # rest
                   \<and> set good \<subseteq> {CHR ''0'', CHR ''1''} \<and> c \<noteq> CHR ''0'' \<and> c \<noteq> CHR ''1''"
    from r2[rule_format, OF a] have "msg = invalid_character_message c (length good + 1)" .
    then show "msg = ''Invalid character '' @ [CHR 0x27, c, CHR 0x27] @ '' at position ''
                             @ to_string (length good + 1) @ ''. Only '' @ [CHR 0x27] @ ''0''
                             @ [CHR 0x27] @ '' and '' @ [CHR 0x27] @ ''1'' @ [CHR 0x27]
                             @ '' are allowed in .hack files.''"
      by (simp only: invalid_character_message_def)
  qed
  show "\<exists>msg. load_rom_string hack_text m = Inl (ParseError ''<rom>'' (length pre + 1) msg)
             \<and> (length body \<noteq> 16 \<longrightarrow>
                  msg = ''Expected 16-bit binary instruction (16 characters of '' @ [CHR 0x27] @ ''0''
                        @ [CHR 0x27] @ '' and '' @ [CHR 0x27] @ ''1'' @ [CHR 0x27] @ ''), got ''
                        @ to_string (length body) @ '' characters: '' @ [CHR 0x22] @ body @ [CHR 0x22])
             \<and> (\<forall>good c rest. length body = 16 \<and> body = good @ c # rest
                   \<and> set good \<subseteq> {CHR ''0'', CHR ''1''} \<and> c \<noteq> CHR ''0'' \<and> c \<noteq> CHR ''1''
                   \<longrightarrow> msg = ''Invalid character '' @ [CHR 0x27, c, CHR 0x27] @ '' at position ''
                             @ to_string (length good + 1) @ ''. Only '' @ [CHR 0x27] @ ''0''
                             @ [CHR 0x27] @ '' and '' @ [CHR 0x27] @ ''1'' @ [CHR 0x27]
                             @ '' are allowed in .hack files.'')"
    by (rule exI[where x = msg], intro conjI l c1 c2)
next
  let ?f = "\<lambda>p. fst p @ snd p"
  let ?m0 = "m\<lparr>rom := (\<lambda>_. 0), program_size := 0\<rparr>"
  note K = load_rom_string_of_lines[OF assms, of m]
  assume h: "ls = pre @ (body, blanks) # post
            \<and> (\<forall>t \<in> set (instruction_lines pre). is_binary_line t)
            \<and> length (instruction_lines pre) = ROM_SIZE \<and> body \<noteq> []"
  note g = conjunct1[OF h]
  note pb = conjunct1[OF conjunct2[OF h]]
  note sz = conjunct1[OF conjunct2[OF conjunct2[OF h]]]
  note ne = conjunct2[OF conjunct2[OF conjunct2[OF h]]]
  have sp: "\<forall>p \<in> set pre. line_split p" and sb: "line_split (body, blanks)"
    using assms(1) unfolding g by simp_all
  have tb: "trim_trailing (body @ blanks) = body" using line_split_trim[OF sb] by simp
  note all = instruction_lines_binary[OF sp pb]
  have sz': "program_size ?m0 + length (filter (\<lambda>t. t \<noteq> []) (map trim_trailing (map ?f pre))) = ROM_SIZE"
    using sz unfolding instruction_lines_trim[OF sp] by simp
  have ne': "trim_trailing (body @ blanks) \<noteq> []" unfolding tb by (rule ne)
  have "load_rom_lines (map ?f pre @ (body @ blanks) # map ?f post) 0 ?m0
      = Inl (ParseError ''<rom>'' (0 + length (map ?f pre) + 1)
               ''Program too large! ROM can hold at most 32768 instructions.'')"
    using all sz' ne' by (rule load_rom_lines_too_large)
  then show "load_rom_string hack_text m
            = Inl (ParseError ''<rom>'' (length pre + 1)
                     ''Program too large! ROM can hold at most 32768 instructions.'')"
    unfolding K g by simp
qed

theorem load_rom_string_lines_witness:
  "load_rom_string (''0000000000000001'' @ [CHR 0x0D, CHR 0x0A] @ ''  '' @ [CHR 0x0A]
                     @ ''1110110000010000'' @ [CHR 0x09, CHR 0x20, CHR 0x0D]) CPUMemory_new
      = Inr (CPUMemory_new\<lparr>rom := (\<lambda>_. 0)(0 := 1, 1 := 0xEC10), program_size := 2\<rparr>)
   \<and> (\<exists>m'. load_rom_string (''0000000000000001'' @ [CHR 0x0D, CHR 0x0A] @ ''  '' @ [CHR 0x0A]
                     @ ''1110110000010000'' @ [CHR 0x09, CHR 0x20, CHR 0x0D]) CPUMemory_new = Inr m'
          \<and> program_size m' = 2 \<and> bit (rom m' 0) 0 \<and> \<not> bit (rom m' 0) 1 \<and> bit (rom m' 1) 15)
   \<and> load_rom_string (''0000000000000001'' @ [CHR 0x0A] @ ''00001111000011x0'' @ [CHR 0x0D, CHR 0x0A])
        CPUMemory_new
      = Inl (ParseError ''<rom>'' 2
              (''Invalid character '' @ [CHR 0x27] @ ''x'' @ [CHR 0x27] @ '' at position 15. Only ''
               @ [CHR 0x27] @ ''0'' @ [CHR 0x27] @ '' and '' @ [CHR 0x27] @ ''1'' @ [CHR 0x27]
               @ '' are allowed in .hack files.''))
   \<and> load_rom_string (hack_text_of (replicate 32768 (''0000000000000000'', []) @ [(''1'', [])]))
        CPUMemory_new
      = Inl (ParseError ''<rom>'' 32769 ''Program too large! ROM can hold at most 32768 instructions.'')"
proof -
  let ?t1 = "''0000000000000001'' @ [CHR 0x0D, CHR 0x0A] @ ''  '' @ [CHR 0x0A]
                     @ ''1110110000010000'' @ [CHR 0x09, CHR 0x20, CHR 0x0D]"
  let ?ls1 = "[(''0000000000000001'', [CHR 0x0D]), ([], ''  ''),
               (''1110110000010000'', [CHR 0x09, CHR 0x20, CHR 0x0D])]"
  let ?t2 = "''0000000000000001'' @ [CHR 0x0A] @ ''00001111000011x0'' @ [CHR 0x0D, CHR 0x0A]"
  let ?pre2 = "[(''0000000000000001'', [] :: string)]"
  let ?ls2 = "?pre2 @ (''00001111000011x0'', [CHR 0x0D]) # []"
  let ?z = "(''0000000000000000'', [] :: string)"
  let ?pre3 = "replicate 32768 ?z"
  let ?ls3 = "?pre3 @ (''1'', [] :: string) # []"
  have direct: "load_rom_string ?t1 CPUMemory_new
      = Inr (CPUMemory_new\<lparr>rom := (\<lambda>_. 0)(0 := 1, 1 := 0xEC10), program_size := 2\<rparr>)"
    by (simp add: load_eval CPUMemory_new_def)
  have s1: "\<forall>p \<in> set ?ls1. line_split p" by (simp add: line_split_def)
  have x1: "?t1 @ [CHR 0x0A] = hack_text_of ?ls1" by (simp add: hack_text_of_def)
  have i1: "instruction_lines ?ls1 = [''0000000000000001'', ''1110110000010000'']"
    by (simp add: instruction_lines_def)
  have h1: "(\<forall>t \<in> set (instruction_lines ?ls1). is_binary_line t)
            \<and> length (instruction_lines ?ls1) \<le> ROM_SIZE"
    unfolding i1 by (simp add: is_binary_line_def)
  note t1 = load_rom_string_lines[OF s1 disjI2[OF x1], where m = CPUMemory_new]
  from mp[OF conjunct1[OF t1] h1] obtain m' where
    a: "load_rom_string ?t1 CPUMemory_new = Inr m'"
    and b: "program_size m' = length (instruction_lines ?ls1)"
    and c: "\<forall>i < length (instruction_lines ?ls1). \<forall>k<16.
              bit (rom m' i) k = (instruction_lines ?ls1 ! i ! (15 - k) = CHR ''1'')"
    by (elim exE conjE)
  from b have b': "program_size m' = 2" unfolding i1 by simp
  from c[rule_format, of 0 0] have c0: "bit (rom m' 0) 0" unfolding i1 by simp
  from c[rule_format, of 0 1] have c1: "\<not> bit (rom m' 0) 1" unfolding i1 by simp
  from c[rule_format, of 1 15] have c2: "bit (rom m' 1) 15" unfolding i1 by simp
  have first: "\<exists>m'. load_rom_string ?t1 CPUMemory_new = Inr m'
          \<and> program_size m' = 2 \<and> bit (rom m' 0) 0 \<and> \<not> bit (rom m' 0) 1 \<and> bit (rom m' 1) 15"
    by (rule exI[where x = m'], intro conjI a b' c0 c1 c2)
  have s2: "\<forall>p \<in> set ?ls2. line_split p" by (simp add: line_split_def)
  have x2: "?t2 = hack_text_of ?ls2" by (simp add: hack_text_of_def)
  have h2: "?ls2 = ?pre2 @ (''00001111000011x0'', [CHR 0x0D]) # []
            \<and> (\<forall>t \<in> set (instruction_lines ?pre2). is_binary_line t)
            \<and> length (instruction_lines ?pre2) < ROM_SIZE \<and> ''00001111000011x0'' \<noteq> []
            \<and> \<not> is_binary_line ''00001111000011x0''"
    by (simp add: instruction_lines_def is_binary_line_def)
  note t2 = load_rom_string_lines[OF s2 disjI1[OF x2], where m = CPUMemory_new and pre = ?pre2
      and body = "''00001111000011x0''" and blanks = "[CHR 0x0D]" and post = "[]"]
  from mp[OF conjunct1[OF conjunct2[OF t2]] h2] obtain msg where
    l: "load_rom_string ?t2 CPUMemory_new = Inl (ParseError ''<rom>'' (length ?pre2 + 1) msg)"
    and r: "\<forall>good c rest. length ''00001111000011x0'' = 16 \<and> ''00001111000011x0'' = good @ c # rest
                   \<and> set good \<subseteq> {CHR ''0'', CHR ''1''} \<and> c \<noteq> CHR ''0'' \<and> c \<noteq> CHR ''1''
                   \<longrightarrow> msg = ''Invalid character '' @ [CHR 0x27, c, CHR 0x27] @ '' at position ''
                             @ to_string (length good + 1) @ ''. Only '' @ [CHR 0x27] @ ''0''
                             @ [CHR 0x27] @ '' and '' @ [CHR 0x27] @ ''1'' @ [CHR 0x27]
                             @ '' are allowed in .hack files.''"
    by (elim exE conjE)
  have ts: "to_string 15 = ''15''" by (simp add: to_string.simps digit_char_def)
  have lg: "length ''00001111000011'' + 1 = (15::nat)" by simp
  have pr: "length ''00001111000011x0'' = 16 \<and> ''00001111000011x0'' = ''00001111000011'' @ CHR ''x'' # ''0''
      \<and> set ''00001111000011'' \<subseteq> {CHR ''0'', CHR ''1''} \<and> CHR ''x'' \<noteq> CHR ''0'' \<and> CHR ''x'' \<noteq> CHR ''1''"
    by simp
  from r[rule_format, OF pr]
  have "msg = ''Invalid character '' @ [CHR 0x27, CHR ''x'', CHR 0x27] @ '' at position ''
                             @ to_string (length ''00001111000011'' + 1) @ ''. Only '' @ [CHR 0x27] @ ''0''
                             @ [CHR 0x27] @ '' and '' @ [CHR 0x27] @ ''1'' @ [CHR 0x27]
                             @ '' are allowed in .hack files.''" .
  then have "msg = ''Invalid character '' @ [CHR 0x27] @ ''x'' @ [CHR 0x27] @ '' at position 15. Only ''
               @ [CHR 0x27] @ ''0'' @ [CHR 0x27] @ '' and '' @ [CHR 0x27] @ ''1'' @ [CHR 0x27]
               @ '' are allowed in .hack files.''"
    unfolding lg ts by simp
  with l have second: "load_rom_string ?t2 CPUMemory_new
      = Inl (ParseError ''<rom>'' 2
              (''Invalid character '' @ [CHR 0x27] @ ''x'' @ [CHR 0x27] @ '' at position 15. Only ''
               @ [CHR 0x27] @ ''0'' @ [CHR 0x27] @ '' and '' @ [CHR 0x27] @ ''1'' @ [CHR 0x27]
               @ '' are allowed in .hack files.''))"
    by (simp add: ParseError_inject)
  have s3: "\<forall>p \<in> set ?ls3. line_split p" by (simp add: line_split_def)
  have i3: "instruction_lines ?pre3 = replicate 32768 ''0000000000000000''"
    by (simp add: instruction_lines_def)
  have h3: "?ls3 = ?pre3 @ (''1'', [] :: string) # []
            \<and> (\<forall>t \<in> set (instruction_lines ?pre3). is_binary_line t)
            \<and> length (instruction_lines ?pre3) = ROM_SIZE \<and> ''1'' \<noteq> []"
    unfolding i3 by (simp add: is_binary_line_def)
  note t3 = load_rom_string_lines[OF s3 disjI1[OF refl], where m = CPUMemory_new and pre = ?pre3
      and body = "''1''" and blanks = "[]" and post = "[]"]
  from mp[OF conjunct2[OF conjunct2[OF t3]] h3]
  have third: "load_rom_string (hack_text_of ?ls3) CPUMemory_new
      = Inl (ParseError ''<rom>'' 32769 ''Program too large! ROM can hold at most 32768 instructions.'')"
    by simp
  show ?thesis by (intro conjI direct first second third)
qed

text \<open>
  Claim C6 as the specification states it fails: whitespace at the front of a line is not
  ignored. A line that is one space and 16 binary digits is rejected for its length.
\<close>

theorem leading_whitespace_counterexample:
  "load_rom_string '' 0000000000000001'' CPUMemory_new
     = Inl (ParseError ''<rom>'' 1 (wrong_length_message '' 0000000000000001''))
   \<and> load_rom_string ''0000000000000001'' CPUMemory_new
     = Inr (CPUMemory_new\<lparr>rom := (\<lambda>_. 0)(0 := 1), program_size := 1\<rparr>)"
  by (simp add: load_eval CPUMemory_new_def)

section \<open>One instruction of the CPU\<close>

lemma should_jump_terms:
  "should_jump j alu = ((sint alu < 0 \<and> j AND 0x4 \<noteq> 0) \<or> (sint alu = 0 \<and> j AND 0x2 \<noteq> 0)
                        \<or> (0 < sint alu \<and> j AND 0x1 \<noteq> 0))"
proof (cases "j = 0")
  case True
  then show ?thesis by (simp add: should_jump_def)
next
  case nz: False
  show ?thesis
  proof (cases "j = 7")
    case True
    have "sint alu < 0 \<or> sint alu = 0 \<or> 0 < sint alu" by linarith
    with True show ?thesis by (simp add: should_jump_def)
  next
    case False
    with nz show ?thesis by (simp add: should_jump_def)
  qed
qed

lemma should_jump_bits:
  "should_jump (ucast ((raw::16 word) AND 0x7)) alu
     = ((sint alu < 0 \<and> bit raw 2) \<or> (sint alu = 0 \<and> bit raw 1) \<or> (0 < sint alu \<and> bit raw 0))"
  by (simp add: should_jump_terms test_bit8 and_0x7 bit_simps)

lemma dest_bits:
  "((ucast (drop_bit 3 (raw::16 word) AND 0x7) :: 8 word) AND 0x4 \<noteq> 0) = bit raw 5"
  "((ucast (drop_bit 3 raw AND 0x7) :: 8 word) AND 0x2 \<noteq> 0) = bit raw 4"
  "((ucast (drop_bit 3 raw AND 0x7) :: 8 word) AND 0x1 \<noteq> 0) = bit raw 3"
  by (simp_all add: test_bit8 and_0x7 bit_simps)

lemma a_bit:
  "((ucast (drop_bit 6 (raw::16 word) AND 0x7F) :: 8 word) AND 0x40 \<noteq> 0) = bit raw 12"
  by (simp add: test_bit8 and_0x7F bit_simps)

lemma read_ram_cases:
  "read_ram m a = Inr v \<Longrightarrow> v = ram m (uint a) \<and> unat a < RAM_SIZE"
  by (auto simp add: read_ram_def split: if_splits)

lemma write_ram_cases:
  "write_ram m a v = Inr m' \<Longrightarrow>
     ram m' = (ram m)(uint a := v) \<and> rom m' = rom m \<and> program_size m' = program_size m \<and> unat a < RAM_SIZE"
  by (auto simp add: write_ram_def Let_def split: if_splits)

lemma alu_operand_Inr:
  fixes raw :: Word
  assumes "alu_operand (ucast (drop_bit 6 raw AND 0x7F)) s = Inr (am, s1)"
  shows "am = (if bit raw 12 then ram (memory s) (uint (a_register s)) else a_register s)
       \<and> a_register s1 = a_register s \<and> d_register s1 = d_register s \<and> pc s1 = pc s
       \<and> memory s1 = memory s \<and> state s1 = state s"
  using assms
  by (auto simp add: alu_operand_def a_bit split: if_splits sum.splits dest: read_ram_cases)

lemma store_result_Inr:
  fixes raw :: Word
  assumes "store_result (ucast (drop_bit 3 raw AND 0x7)) alu s1 = Inr s4"
  shows "a_register s4 = (if bit raw 5 then alu else a_register s1)
       \<and> d_register s4 = (if bit raw 4 then alu else d_register s1)
       \<and> ram (memory s4) = (if bit raw 3 then (ram (memory s1))(uint (a_register s1) := alu)
                              else ram (memory s1))
       \<and> pc s4 = pc s1 \<and> state s4 = state s1
       \<and> program_size (memory s4) = program_size (memory s1)"
  using assms
  by (auto simp add: store_result_def dest_bits Let_def split: if_splits sum.splits
      dest: write_ram_cases)

lemma jump_or_advance_result:
  fixes raw :: Word
  shows "pc (jump_or_advance (ucast (raw AND 0x7)) alu s4)
     = (if (sint alu < 0 \<and> bit raw 2) \<or> (sint alu = 0 \<and> bit raw 1) \<or> (0 < sint alu \<and> bit raw 0)
        then a_register s4 else pc s4 + 1)
   \<and> a_register (jump_or_advance (ucast (raw AND 0x7)) alu s4) = a_register s4
   \<and> d_register (jump_or_advance (ucast (raw AND 0x7)) alu s4) = d_register s4
   \<and> memory (jump_or_advance (ucast (raw AND 0x7)) alu s4) = memory s4
   \<and> state (jump_or_advance (ucast (raw AND 0x7)) alu s4) = state s4"
  by (simp add: jump_or_advance_def should_jump_bits)

lemma execute_c_instruction_Inr:
  fixes raw :: Word
  assumes "execute_c_instruction raw s = Inr s'"
  shows "\<exists>alu. compute_alu (pc s) (ucast (take_bit 7 (drop_bit 6 raw))) (d_register s)
                  (if bit raw 12 then ram (memory s) (uint (a_register s)) else a_register s) = Inr alu
           \<and> a_register s' = (if bit raw 5 then alu else a_register s)
           \<and> d_register s' = (if bit raw 4 then alu else d_register s)
           \<and> ram (memory s') = (if bit raw 3 then (ram (memory s))(uint (a_register s) := alu)
                                  else ram (memory s))
           \<and> pc s' = (if (sint alu < 0 \<and> bit raw 2) \<or> (sint alu = 0 \<and> bit raw 1)
                            \<or> (0 < sint alu \<and> bit raw 0)
                        then a_register s' else pc s + 1)
           \<and> state s' = state s"
proof -
  let ?cb = "(ucast (drop_bit 6 raw AND 0x7F) :: 8 word)"
  let ?db = "(ucast (drop_bit 3 raw AND 0x7) :: 8 word)"
  let ?jb = "(ucast (raw AND 0x7) :: 8 word)"
  from assms obtain am s1 where op: "alu_operand ?cb s = Inr (am, s1)"
    by (auto simp add: execute_c_instruction_def Let_def split: sum.splits)
  with assms obtain alu where alu: "compute_alu (pc s1) ?cb (d_register s1) am = Inr alu"
    by (auto simp add: execute_c_instruction_def Let_def split: sum.splits)
  with assms op obtain s4 where st: "store_result ?db alu s1 = Inr s4"
    by (auto simp add: execute_c_instruction_def Let_def split: sum.splits)
  let ?s5 = "jump_or_advance ?jb alu s4"
  from assms op alu st have s': "s' = ?s5\<lparr>stats := (stats ?s5)\<lparr>c_instruction_count :=
                                                c_instruction_count (stats ?s5) + 1\<rparr>\<rparr>"
    by (simp add: execute_c_instruction_def Let_def)
  note o = alu_operand_Inr[OF op]
  note w = store_result_Inr[OF st]
  note j = jump_or_advance_result[of raw alu s4]
  have "compute_alu (pc s) (ucast (take_bit 7 (drop_bit 6 raw))) (d_register s)
                  (if bit raw 12 then ram (memory s) (uint (a_register s)) else a_register s) = Inr alu"
    using alu o by (simp add: and_0x7F)
  moreover have "a_register s' = (if bit raw 5 then alu else a_register s)"
    using s' o w j by simp
  moreover have "d_register s' = (if bit raw 4 then alu else d_register s)"
    using s' o w j by simp
  moreover have "ram (memory s') = (if bit raw 3 then (ram (memory s))(uint (a_register s) := alu)
                                  else ram (memory s))"
    using s' o w j by simp
  moreover have "pc s' = (if (sint alu < 0 \<and> bit raw 2) \<or> (sint alu = 0 \<and> bit raw 1)
                            \<or> (0 < sint alu \<and> bit raw 0)
                        then a_register s' else pc s + 1)"
    using s' o w j by simp
  moreover have "state s' = state s"
    using s' o w j by simp
  ultimately show ?thesis by blast
qed

text \<open>
  Claim C4. An executed C-instruction, that is one \<open>execute_instruction\<close> fetches and
  completes without an error: its ALU operand is \<open>RAM[A]\<close> when the a-bit (bit 12) is
  set and \<open>A\<close> otherwise; each destination bit applies its write by itself, the M write
  going to \<open>RAM[A]\<close> for the \<open>A\<close> from before the instruction; and \<open>PC\<close> becomes the
  \<open>A\<close> from after the writes when the jump condition holds on the signed ALU output, and
  \<open>PC + 1\<close> otherwise.
\<close>

theorem c_instruction_semantics:
  fixes raw :: Word
  assumes "state s = CPU_RUNNING"
    and "unat (pc s) < program_size (memory s)"
    and "\<not> pause_requested s"
    and "\<not> (0 < instructions_executed (stats s) \<and> pc s \<in> breakpoints s)"
    and "raw = rom (memory s) (unat (pc s))"
    and "bit raw 15"
    and "s' = snd (execute_instruction s)"
    and "state s' \<noteq> CPU_ERROR"
  shows "\<exists>alu. compute_alu (pc s) (ucast (take_bit 7 (drop_bit 6 raw))) (d_register s)
                  (if bit raw 12 then ram (memory s) (uint (a_register s)) else a_register s) = Inr alu
           \<and> a_register s' = (if bit raw 5 then alu else a_register s)
           \<and> d_register s' = (if bit raw 4 then alu else d_register s)
           \<and> ram (memory s') = (if bit raw 3 then (ram (memory s))(uint (a_register s) := alu)
                                  else ram (memory s))
           \<and> pc s' = (if (sint alu < 0 \<and> bit raw 2) \<or> (sint alu = 0 \<and> bit raw 1)
                            \<or> (0 < sint alu \<and> bit raw 0)
                        then a_register s' else pc s + 1)"
proof -
  have fe: "fetch_execute s = execute_c_instruction raw s"
    using assms(5,6) by (simp add: fetch_execute_def Let_def and_0x8000_iff)
  have nb: "(0 < instructions_executed (stats s) \<and> pc s \<in> breakpoints s) = False"
    using assms(4) by simp
  have ex: "execute_instruction s =
      (case execute_c_instruction raw s of
         Inl (e, s1) \<Rightarrow>
           (False, s1\<lparr>error_message := what e, error_location := pc s1, state := CPU_ERROR\<rparr>)
       | Inr s1 \<Rightarrow>
           (let s2 = s1\<lparr>stats := (stats s1)\<lparr>instructions_executed :=
                                               instructions_executed (stats s1) + 1\<rparr>\<rparr>
            in if unat (pc s2) \<ge> program_size (memory s2) then (False, s2\<lparr>state := CPU_HALTED\<rparr>)
               else (True, s2)))"
    using assms(2,3) by (simp add: execute_instruction_def nb fe)
  show ?thesis
  proof (cases "execute_c_instruction raw s")
    case (Inl es)
    then have "state s' = CPU_ERROR"
      using assms(7) by (cases es) (simp add: ex)
    with assms(8) show ?thesis by simp
  next
    case (Inr s1)
    let ?s2 = "s1\<lparr>stats := (stats s1)\<lparr>instructions_executed := instructions_executed (stats s1) + 1\<rparr>\<rparr>"
    have "s' = ?s2 \<or> s' = ?s2\<lparr>state := CPU_HALTED\<rparr>"
      using assms(7) Inr by (simp add: ex Let_def)
    then have same: "a_register s' = a_register s1" "d_register s' = d_register s1"
      "memory s' = memory s1" "pc s' = pc s1" by auto
    from execute_c_instruction_Inr[OF Inr] show ?thesis unfolding same by blast
  qed
qed

lemmas cpu_eval = CPUEngine_run_def CPUEngine_run_loop.simps execute_instruction_def fetch_execute_def
  execute_c_instruction_def alu_operand_def store_result_def jump_or_advance_def
  compute_alu_def should_jump_def read_ram_def write_ram_def
  CPUEngine_load_def load_rom_def CPUEngine_new_def CPUMemory_new_def CPUStats_reset_def
  CPUEngine_add_breakpoint_def Let_def

theorem c_instruction_semantics_witness:
  "state c_instruction_example = CPU_RUNNING
   \<and> unat (pc c_instruction_example) < program_size (memory c_instruction_example)
   \<and> rom (memory c_instruction_example) (unat (pc c_instruction_example)) = 0xFDF9
   \<and> bit (0xFDF9 :: Word) 15
   \<and> state (snd (execute_instruction c_instruction_example)) \<noteq> CPU_ERROR
   \<and> (\<exists>alu. compute_alu 0 (ucast (take_bit 7 (drop_bit 6 (0xFDF9 :: Word)))) 0 0 = Inr alu
        \<and> a_register (snd (execute_instruction c_instruction_example)) = alu
        \<and> d_register (snd (execute_instruction c_instruction_example)) = alu
        \<and> ram (memory (snd (execute_instruction c_instruction_example))) 0 = alu
        \<and> pc (snd (execute_instruction c_instruction_example)) = 1)"
proof -
  let ?s = c_instruction_example
  let ?s' = "snd (execute_instruction ?s)"
  have h1: "state ?s = CPU_RUNNING" by (simp add: c_instruction_example_def cpu_eval)
  have h2: "unat (pc ?s) < program_size (memory ?s)" by (simp add: c_instruction_example_def cpu_eval)
  have h3: "\<not> pause_requested ?s" by (simp add: c_instruction_example_def cpu_eval)
  have h4: "\<not> (0 < instructions_executed (stats ?s) \<and> pc ?s \<in> breakpoints ?s)"
    by (simp add: c_instruction_example_def cpu_eval)
  have h5: "0xFDF9 = rom (memory ?s) (unat (pc ?s))" by (simp add: c_instruction_example_def cpu_eval)
  have h6: "bit (0xFDF9 :: Word) 15" by simp
  have h8: "state ?s' \<noteq> CPU_ERROR" by (simp add: c_instruction_example_def cpu_eval)
  from c_instruction_semantics[OF h1 h2 h3 h4 h5 h6 refl h8]
  obtain alu where
    a: "compute_alu (pc ?s) (ucast (take_bit 7 (drop_bit 6 (0xFDF9 :: Word)))) (d_register ?s)
          (if bit (0xFDF9 :: Word) 12 then ram (memory ?s) (uint (a_register ?s)) else a_register ?s) = Inr alu"
    and b: "a_register ?s' = (if bit (0xFDF9 :: Word) 5 then alu else a_register ?s)"
    and c: "d_register ?s' = (if bit (0xFDF9 :: Word) 4 then alu else d_register ?s)"
    and d: "ram (memory ?s') = (if bit (0xFDF9 :: Word) 3 then (ram (memory ?s))(uint (a_register ?s) := alu)
                                  else ram (memory ?s))"
    and e: "pc ?s' = (if (sint alu < 0 \<and> bit (0xFDF9 :: Word) 2) \<or> (sint alu = 0 \<and> bit (0xFDF9 :: Word) 1)
                            \<or> (0 < sint alu \<and> bit (0xFDF9 :: Word) 0)
                        then a_register ?s' else pc ?s + 1)"
    by (elim exE conjE)
  have regs: "pc ?s = 0" "d_register ?s = 0" "a_register ?s = 0" "ram (memory ?s) 0 = 0"
    by (simp_all add: c_instruction_example_def cpu_eval)
  have a': "compute_alu 0 (ucast (take_bit 7 (drop_bit 6 (0xFDF9 :: Word)))) 0 0 = Inr alu"
    using a regs by simp
  then have alu1: "alu = 1" by (simp add: compute_alu_def)
  have b': "a_register ?s' = alu" using b by simp
  have c': "d_register ?s' = alu" using c by simp
  have d': "ram (memory ?s') 0 = alu" using d regs by simp
  have e': "pc ?s' = 1" using e b' alu1 by simp
  have "\<exists>alu. compute_alu 0 (ucast (take_bit 7 (drop_bit 6 (0xFDF9 :: Word)))) 0 0 = Inr alu
        \<and> a_register ?s' = alu \<and> d_register ?s' = alu \<and> ram (memory ?s') 0 = alu \<and> pc ?s' = 1"
    by (rule exI[where x = alu], intro conjI a' b' c' d' e')
  with h1 h2 h5[symmetric] h6 h8 show ?thesis by (intro conjI)
qed

section \<open>Breakpoints and the error state\<close>

lemmas vm_eval = VMEngine_run_def VMEngine_run_loop.simps execute_command_def
  initialize_execution_def VMMemory_reset_def VMMemory_new_def VMEngine_new_def VMStats_reset_def
  VMEngine_load_program_def VMEngine_add_breakpoint_def locals_at_def push_frame_def
  get_static_base_def execute_push_def execute_return_def read_segment_def mem_push_def mem_pop_def
  push_def pop_def pop_frame_def and_then_def pc_next_def Let_def

text \<open>
  Claim C2, on the code. The engines count \<open>instructions_executed\<close> from the load or the
  reset, not from the start of the run. In the breakpoint tests of the repository, without
  their \<open>clear_breakpoints()\<close>: the first \<open>run()\<close> pauses at the breakpoint before the
  instruction there executes; the second \<open>run()\<close>, resumed from that pause, trips on the
  same breakpoint at once and leaves the engine as it was, no instruction executed.
\<close>

theorem resumed_run_retrips_breakpoint:
  "(\<exists>p. CPUEngine_run cpu_breakpoint_example = Some p
        \<and> state p = CPU_PAUSED \<and> pause_reason p = CPU_BREAKPOINT \<and> pc p = 2
        \<and> a_register p = 1 \<and> d_register p = 1 \<and> instructions_executed (stats p) = 2
        \<and> CPUEngine_run p = Some p)
   \<and> (\<exists>q. VMEngine_run stem vm_breakpoint_example = Some (Inr q)
        \<and> vm_state q = VM_PAUSED \<and> vm_pause_reason q = VM_BREAKPOINT \<and> vm_pc q = 3
        \<and> vm_ram (vm_memory q) 0 = 263 \<and> vm_instructions_executed (vm_stats q) = 3
        \<and> VMEngine_run stem q = Some (Inr q))"
proof (rule conjI)
  let ?p = "the (CPUEngine_run cpu_breakpoint_example)"
  have "CPUEngine_run cpu_breakpoint_example = Some ?p
        \<and> state ?p = CPU_PAUSED \<and> pause_reason ?p = CPU_BREAKPOINT \<and> pc ?p = 2
        \<and> a_register ?p = 1 \<and> d_register ?p = 1 \<and> instructions_executed (stats ?p) = 2
        \<and> CPUEngine_run ?p = Some ?p"
    by (simp add: cpu_breakpoint_example_def cpu_eval)
  then show "\<exists>p. CPUEngine_run cpu_breakpoint_example = Some p
        \<and> state p = CPU_PAUSED \<and> pause_reason p = CPU_BREAKPOINT \<and> pc p = 2
        \<and> a_register p = 1 \<and> d_register p = 1 \<and> instructions_executed (stats p) = 2
        \<and> CPUEngine_run p = Some p"
    by (rule exI)
next
  let ?q = "projr (the (VMEngine_run stem vm_breakpoint_example))"
  have "VMEngine_run stem vm_breakpoint_example = Some (Inr ?q)
        \<and> vm_state ?q = VM_PAUSED \<and> vm_pause_reason ?q = VM_BREAKPOINT \<and> vm_pc ?q = 3
        \<and> vm_ram (vm_memory ?q) 0 = 263 \<and> vm_instructions_executed (vm_stats ?q) = 3
        \<and> VMEngine_run stem ?q = Some (Inr ?q)"
    by (simp add: vm_breakpoint_example_def vm_breakpoint_program_def vm_eval)
  then show "\<exists>q. VMEngine_run stem vm_breakpoint_example = Some (Inr q)
        \<and> vm_state q = VM_PAUSED \<and> vm_pause_reason q = VM_BREAKPOINT \<and> vm_pc q = 3
        \<and> vm_ram (vm_memory q) 0 = 263 \<and> vm_instructions_executed (vm_stats q) = 3
        \<and> VMEngine_run stem q = Some (Inr q)"
    by (rule exI)
qed




lemma store_result_state: "store_result db alu s1 = Inr s4 \<Longrightarrow> state s4 = state s1"
  by (auto simp add: store_result_def Let_def split: if_splits sum.splits)





























subsection \<open>The error state\<close>










































section \<open>The frames of call and return\<close>

lemma zero_locals_sp: "fst (zero_locals k sp r) = sp + of_nat k"
  by (induction k arbitrary: sp r) simp_all

lemma push_frame_sp:
  "vm_ram (push_frame ret_address fname n_args n_locals m) VM_SP = vm_ram m VM_SP + 5 + n_locals"
  by (simp add: push_frame_def Let_def case_prod_beta zero_locals_sp)

lemma push_frame_statics:
  "static_bases (push_frame ret_address fname n_args n_locals m) = static_bases m"
  "next_static_address (push_frame ret_address fname n_args n_locals m) = next_static_address m"
  by (simp_all add: push_frame_def Let_def case_prod_beta)

lemma push_frame_call_stack:
  "call_stack (push_frame ret_address fname n_args n_locals m) \<noteq> []"
  by (simp add: push_frame_def Let_def case_prod_beta)

text \<open>
  Claim C3, on the code. \<open>push\<close> checks for overflow, \<open>push_frame\<close> does not: it writes
  the five saved words and the zeros of the locals past \<open>STACK_MAX\<close> and moves \<open>SP\<close>
  there, and no error is raised. A program whose entry function declares 2000 locals
  halts normally with \<open>SP = 2261\<close>; a call on a stack with \<open>SP = 2047\<close> leaves
  \<open>SP = 2052\<close>, where \<open>push\<close> of one more word is refused.
\<close>

theorem push_frame_passes_stack_max:
  "(\<exists>q. VMEngine_run stem vm_many_locals_example = Some (Inr q)
        \<and> vm_state q = VM_HALTED \<and> vm_error_message q = []
        \<and> vm_ram (vm_memory q) VM_SP = 2261)
   \<and> vm_ram vm_memory_nearly_full VM_SP = 2047
   \<and> vm_ram (push_frame 1 ''f'' 0 0 vm_memory_nearly_full) VM_SP = 2052
   \<and> (\<exists>m. push 0 vm_memory_nearly_full = Inr m \<and> vm_ram m VM_SP = 2048)
   \<and> (\<exists>e. push 0 (push_frame 1 ''f'' 0 0 vm_memory_nearly_full) = Inl e)"
proof (intro conjI)
  let ?q = "projr (the (VMEngine_run stem vm_many_locals_example))"
  have run: "VMEngine_run stem vm_many_locals_example = Some (Inr ?q)
        \<and> vm_state ?q = VM_HALTED \<and> vm_error_message ?q = []
        \<and> vm_memory ?q = (push_frame 0 ''Sys.init'' 0 2000 VMMemory_new)
              \<lparr>static_bases := [stem ''test'' \<mapsto> 16], next_static_address := 32\<rparr>"
    by (simp add: vm_many_locals_example_def VMEngine_run_def VMEngine_run_loop.simps
        execute_command_def initialize_execution_def VMMemory_reset_def VMMemory_new_def
        VMEngine_new_def VMStats_reset_def VMEngine_load_program_def locals_at_def
        get_static_base_def pc_next_def Let_def push_frame_call_stack push_frame_statics)
  then have "vm_ram (vm_memory ?q) VM_SP = 2261"
    by (simp add: push_frame_sp VMMemory_new_def)
  with run have "VMEngine_run stem vm_many_locals_example = Some (Inr ?q)
        \<and> vm_state ?q = VM_HALTED \<and> vm_error_message ?q = []
        \<and> vm_ram (vm_memory ?q) VM_SP = 2261" by simp
  then show "\<exists>q. VMEngine_run stem vm_many_locals_example = Some (Inr q)
        \<and> vm_state q = VM_HALTED \<and> vm_error_message q = []
        \<and> vm_ram (vm_memory q) VM_SP = 2261" by (rule exI)
next
  show "vm_ram vm_memory_nearly_full VM_SP = 2047"
    by (simp add: vm_memory_nearly_full_def)
  show "vm_ram (push_frame 1 ''f'' 0 0 vm_memory_nearly_full) VM_SP = 2052"
    by (simp add: push_frame_sp vm_memory_nearly_full_def)
  show "\<exists>m. push 0 vm_memory_nearly_full = Inr m \<and> vm_ram m VM_SP = 2048"
    by (simp add: push_def vm_memory_nearly_full_def Let_def)
  show "\<exists>e. push 0 (push_frame 1 ''f'' 0 0 vm_memory_nearly_full) = Inl e"
    by (simp add: push_def push_frame_sp vm_memory_nearly_full_def Let_def)
qed


















section \<open>The evaluation order of the parts of a chip\<close>

lemma readers_after_writers_iff:
  "readers_after_writers c order =
     (\<forall>mi \<in> set (input_mappings c). \<forall>mo \<in> set (output_mappings c).
        depends_on c mi mo \<longrightarrow> precedes (part_index mo) (part_index mi) order)"
  by (auto simp add: readers_after_writers_def misordered_def filter_empty_conv)

lemma fold_invariant:
  assumes "P s" and "\<And>x s. x \<in> set xs \<Longrightarrow> P s \<Longrightarrow> P (f x s)"
  shows "P (fold f xs s)"
  using assms by (induction xs arbitrary: s) simp_all

lemma fold_establish:
  assumes "x \<in> set xs" and "P s"
    and "\<And>y s. P s \<Longrightarrow> P (f y s)"
    and "\<And>s. P s \<Longrightarrow> Q (f x s)"
    and "\<And>y s. P s \<Longrightarrow> Q s \<Longrightarrow> Q (f y s)"
  shows "Q (fold f xs s)"
  using assms(1,2)
proof (induction xs arbitrary: s)
  case Nil
  then show ?case by simp
next
  case (Cons y ys)
  have keep: "P t \<Longrightarrow> Q t \<Longrightarrow> Q (fold f ys t)" for t
  proof (induction ys arbitrary: t)
    case Nil
    then show ?case by simp
  next
    case (Cons z zs)
    then show ?case using assms(3,5) by simp
  qed
  show ?case
  proof (cases "x = y")
    case True
    then show ?thesis using keep[of "f y s"] assms(3,4) Cons.prems(2) by simp
  next
    case False
    then have "x \<in> set ys" using Cons.prems(1) by simp
    then show ?thesis using Cons.IH[of "f y s"] assms(3) Cons.prems(2) by simp
  qed
qed

subsection \<open>The sets of wires of the parts\<close>

lemma part_outputs_fold:
  assumes "length po = n" and "a < n"
  shows "length (fold (\<lambda>m po. po[part_index m := insort_insert (chip_pin m) (po ! part_index m)]) ms po) = n
       \<and> set (fold (\<lambda>m po. po[part_index m := insort_insert (chip_pin m) (po ! part_index m)]) ms po ! a)
         = set (po ! a) \<union> {chip_pin m | m. m \<in> set ms \<and> part_index m = a}"
  using assms
proof (induction ms arbitrary: po)
  case Nil
  then show ?case by simp
next
  case (Cons m ms)
  let ?po = "po[part_index m := insort_insert (chip_pin m) (po ! part_index m)]"
  have l: "length ?po = n" using Cons.prems by simp
  have s: "set (?po ! a) = set (po ! a) \<union> (if part_index m = a then {chip_pin m} else {})"
    using Cons.prems by (auto simp add: nth_list_update set_insort_insert)
  from Cons.IH[OF l Cons.prems(2)] s show ?case by auto
qed

lemma part_outputs_set:
  assumes "a < n"
  shows "set (part_outputs c n ! a) = {chip_pin m | m. m \<in> set (output_mappings c) \<and> part_index m = a}"
    and "length (part_outputs c n) = n"
  using part_outputs_fold[of "replicate n []" n a "output_mappings c"] assms
  by (simp_all add: part_outputs_def)


lemma part_inputs_fold:
  assumes "length pi = n" and "a < n"
  shows "length (fold (\<lambda>m pi.
             if chip_pin m = ''true'' \<or> chip_pin m = ''false'' then pi
             else if \<not> is_chip_input c (chip_pin m) \<and> \<not> is_chip_output c (chip_pin m)
                  then pi[part_index m := insort_insert (chip_pin m) (pi ! part_index m)]
                  else pi) ms pi) = n
       \<and> set (fold (\<lambda>m pi.
             if chip_pin m = ''true'' \<or> chip_pin m = ''false'' then pi
             else if \<not> is_chip_input c (chip_pin m) \<and> \<not> is_chip_output c (chip_pin m)
                  then pi[part_index m := insort_insert (chip_pin m) (pi ! part_index m)]
                  else pi) ms pi ! a)
         = set (pi ! a) \<union> {chip_pin m | m. m \<in> set ms \<and> part_index m = a \<and> internal_wire c (chip_pin m)}"
  using assms
proof (induction ms arbitrary: pi)
  case Nil
  then show ?case by simp
next
  case (Cons m ms)
  let ?f = "\<lambda>m pi.
             if chip_pin m = ''true'' \<or> chip_pin m = ''false'' then pi
             else if \<not> is_chip_input c (chip_pin m) \<and> \<not> is_chip_output c (chip_pin m)
                  then pi[part_index m := insort_insert (chip_pin m) (pi ! part_index m)]
                  else pi"
  have l: "length (?f m pi) = n" using Cons.prems by simp
  have s: "set (?f m pi ! a) = set (pi ! a)
             \<union> (if part_index m = a \<and> internal_wire c (chip_pin m) then {chip_pin m} else {})"
    using Cons.prems by (auto simp add: nth_list_update set_insort_insert internal_wire_def)
  from Cons.IH[OF l Cons.prems(2)] s show ?case by auto
qed

lemma part_inputs_set:
  assumes "a < n"
  shows "set (part_inputs c n ! a)
           = {chip_pin m | m. m \<in> set (input_mappings c) \<and> part_index m = a \<and> internal_wire c (chip_pin m)}"
    and "length (part_inputs c n) = n"
  using part_inputs_fold[of "replicate n []" n a c "input_mappings c"] assms
  by (simp_all add: part_inputs_def)

subsection \<open>The dependency graph\<close>

lemma add_edge_fst:
  "fst (add_edge a b g) = (fst g)[a := fst g ! a @ [b]]"
  "snd (add_edge a b g) = (snd g)[b := snd g ! b + 1]"
  by (simp_all add: add_edge_def case_prod_beta)

lemma count_list_append_one:
  "count_list (xs @ [b]) v = count_list xs v + (if v = b then 1 else 0)"
  by (induction xs) simp_all

lemma in_edges_add:
  assumes "length adj = n" and "a < n"
  shows "in_edges (adj[a := adj ! a @ [b]]) {..<n} v
           = in_edges adj {..<n} v + (if v = b then 1 else 0)"
proof -
  have "in_edges (adj[a := adj ! a @ [b]]) {..<n} v
          = (\<Sum>x\<in>{..<n}. count_list (adj ! x) v + (if x = a then (if v = b then 1 else 0) else 0))"
    unfolding in_edges_def using assms
    by (intro sum.cong refl) (simp add: nth_list_update count_list_append_one)
  also have "\<dots> = in_edges adj {..<n} v + (\<Sum>x\<in>{..<n}. if x = a then (if v = b then 1 else 0) else 0)"
    unfolding in_edges_def by (simp add: sum.distrib)
  also have "(\<Sum>x\<in>{..<n}. if x = a then (if v = b then 1 else 0) else 0) = (if v = b then 1 else (0::nat))"
    using assms(2) by (simp add: sum.delta)
  finally show ?thesis .
qed

lemma add_edge_ok:
  assumes "graph_ok n g" and "a < n" and "b < n"
  shows "graph_ok n (add_edge a b g)"
proof -
  have l: "length (fst g) = n" "length (snd g) = n" using assms(1) by (simp_all add: graph_ok_def)
  have d: "snd g ! v = of_nat (in_edges (fst g) {..<n} v)" if "v < n" for v
    using assms(1) that by (simp add: graph_ok_def)
  have "snd (add_edge a b g) ! v = of_nat (in_edges (fst (add_edge a b g)) {..<n} v)" if "v < n" for v
    using that l assms(2,3) d[OF that]
    by (simp add: add_edge_fst in_edges_add[OF l(1) assms(2)] nth_list_update)
  then show ?thesis using l by (simp add: graph_ok_def add_edge_fst)
qed

lemma edges_of_wire_ok:
  assumes "graph_ok n g" and "b < n"
  shows "graph_ok n (edges_of_wire n pout b w g)"
  unfolding edges_of_wire_def
  by (rule fold_invariant[where P = "graph_ok n"]) (simp_all add: assms add_edge_ok)

lemma edges_into_ok:
  assumes "graph_ok n g" and "b < n"
  shows "graph_ok n (edges_into n pin pout b g)"
  unfolding edges_into_def
  by (rule fold_invariant[where P = "graph_ok n"]) (simp_all add: assms edges_of_wire_ok)

lemma build_graph_ok: "graph_ok n (build_graph n pin pout)"
  unfolding build_graph_def
proof (rule fold_invariant[where P = "graph_ok n"])
  show "graph_ok n (replicate n [], replicate n 0)"
    by (simp add: graph_ok_def in_edges_def)
qed (simp add: edges_into_ok)

lemma add_edge_sound:
  assumes "edges_sound n pin pout g" and "a < n" and "b < n" and "a \<noteq> b"
    and "w \<in> set (pin ! b)" and "w \<in> set (pout ! a)"
  shows "edges_sound n pin pout (add_edge a b g)"
proof -
  have l: "length (fst g) = n" using assms(1) by (simp add: edges_sound_def)
  have old: "y < n \<and> x \<noteq> y \<and> (\<exists>w\<in>set (pin ! y). w \<in> set (pout ! x))"
    if "x < n" "y \<in> set (fst g ! x)" for x y
    using assms(1) that by (simp add: edges_sound_def)
  have new: "y < n \<and> x \<noteq> y \<and> (\<exists>w\<in>set (pin ! y). w \<in> set (pout ! x))"
    if "x < n" "y \<in> set (fst (add_edge a b g) ! x)" for x y
  proof (cases "x = a \<and> y = b")
    case True
    have "b < n \<and> a \<noteq> b \<and> (\<exists>w\<in>set (pin ! b). w \<in> set (pout ! a))"
      using assms(3,4) assms(6) by (intro conjI bexI[OF _ assms(5)])
    then show ?thesis using True by simp
  next
    case False
    then have "y \<in> set (fst g ! x)" using that l
      by (cases "x = a") (auto simp add: add_edge_fst nth_list_update)
    then show ?thesis using old[OF that(1)] by simp
  qed
  have "length (fst (add_edge a b g)) = n" using l by (simp add: add_edge_fst)
  moreover have "\<forall>x<n. \<forall>y\<in>set (fst (add_edge a b g) ! x).
      y < n \<and> x \<noteq> y \<and> (\<exists>w\<in>set (pin ! y). w \<in> set (pout ! x))"
    using new by (intro allI impI ballI)
  ultimately show ?thesis unfolding edges_sound_def by (rule conjI)
qed

lemma edges_of_wire_sound:
  assumes "edges_sound n pin pout g" and "b < n" and "w \<in> set (pin ! b)"
  shows "edges_sound n pin pout (edges_of_wire n pout b w g)"
  unfolding edges_of_wire_def
proof (rule fold_invariant[where P = "edges_sound n pin pout"])
  show "edges_sound n pin pout g" by (rule assms(1))
  show "edges_sound n pin pout (if x \<noteq> b \<and> w \<in> set (pout ! x) then add_edge x b s else s)"
    if "x \<in> set [0..<n]" "edges_sound n pin pout s" for x s
    using add_edge_sound[OF that(2) _ assms(2) _ assms(3), of x] that by simp
qed

lemma edges_into_sound:
  assumes "edges_sound n pin pout g" and "b < n"
  shows "edges_sound n pin pout (edges_into n pin pout b g)"
  unfolding edges_into_def
proof (rule fold_invariant[where P = "edges_sound n pin pout"])
  show "edges_sound n pin pout g" by (rule assms(1))
  show "edges_sound n pin pout (edges_of_wire n pout b x s)"
    if "x \<in> set (pin ! b)" "edges_sound n pin pout s" for x s
    using that(2) assms(2) that(1) by (rule edges_of_wire_sound)
qed

lemma build_graph_sound: "edges_sound n pin pout (build_graph n pin pout)"
  unfolding build_graph_def
proof (rule fold_invariant[where P = "edges_sound n pin pout"])
  show "edges_sound n pin pout (replicate n [], replicate n 0)"
    by (simp add: edges_sound_def)
  show "edges_sound n pin pout (edges_into n pin pout x s)"
    if "x \<in> set [0..<n]" "edges_sound n pin pout s" for x s
    using that by (simp add: edges_into_sound)
qed


text \<open>Every dependency becomes an edge: the adjacency lists only grow.\<close>

lemma add_edge_keeps:
  assumes "length (fst g) = n" and "a < n" and "b \<in> set (fst g ! a)"
  shows "b \<in> set (fst (add_edge x y g) ! a)"
  using assms by (cases "x = a") (simp_all add: add_edge_fst nth_list_update)

lemma add_edge_length: "length (fst (add_edge x y g)) = length (fst g)"
  by (simp add: add_edge_fst)

lemma edges_of_wire_length: "length (fst (edges_of_wire n pout b w g)) = length (fst g)"
  unfolding edges_of_wire_def
  by (rule fold_invariant[where P = "\<lambda>h. length (fst h) = length (fst g)"])
     (simp_all add: add_edge_length)

lemma edges_into_length: "length (fst (edges_into n pin pout b g)) = length (fst g)"
  unfolding edges_into_def
  by (rule fold_invariant[where P = "\<lambda>h. length (fst h) = length (fst g)"])
     (simp_all add: edges_of_wire_length)

lemma edges_of_wire_keeps:
  assumes "length (fst g) = n" and "a < n" and "b \<in> set (fst g ! a)"
  shows "b \<in> set (fst (edges_of_wire n pout y w g) ! a)"
proof -
  have "length (fst (edges_of_wire n pout y w g)) = n \<and> b \<in> set (fst (edges_of_wire n pout y w g) ! a)"
    unfolding edges_of_wire_def
  proof (rule fold_invariant[where P = "\<lambda>h. length (fst h) = n \<and> b \<in> set (fst h ! a)"])
    show "length (fst g) = n \<and> b \<in> set (fst g ! a)" using assms by simp
    show "length (fst (if x \<noteq> y \<and> w \<in> set (pout ! x) then add_edge x y s else s)) = n
          \<and> b \<in> set (fst (if x \<noteq> y \<and> w \<in> set (pout ! x) then add_edge x y s else s) ! a)"
      if "length (fst s) = n \<and> b \<in> set (fst s ! a)" for x s
      using that add_edge_keeps[of s n a b x y] assms(2) by (simp add: add_edge_length)
  qed
  then show ?thesis by simp
qed

lemma edges_into_keeps:
  assumes "length (fst g) = n" and "a < n" and "b \<in> set (fst g ! a)"
  shows "b \<in> set (fst (edges_into n pin pout y g) ! a)"
proof -
  have "length (fst (edges_into n pin pout y g)) = n \<and> b \<in> set (fst (edges_into n pin pout y g) ! a)"
    unfolding edges_into_def
  proof (rule fold_invariant[where P = "\<lambda>h. length (fst h) = n \<and> b \<in> set (fst h ! a)"])
    show "length (fst g) = n \<and> b \<in> set (fst g ! a)" using assms by simp
    show "length (fst (edges_of_wire n pout y x s)) = n
          \<and> b \<in> set (fst (edges_of_wire n pout y x s) ! a)"
      if "length (fst s) = n \<and> b \<in> set (fst s ! a)" for x s
      using that edges_of_wire_keeps[of s n a b pout y x] assms(2)
      by (simp add: edges_of_wire_length)
  qed
  then show ?thesis by simp
qed

lemma edges_of_wire_adds:
  assumes "length (fst g) = n" and "a < n" and "a \<noteq> b" and "w \<in> set (pout ! a)"
  shows "b \<in> set (fst (edges_of_wire n pout b w g) ! a)"
  unfolding edges_of_wire_def
proof (rule fold_establish[where x = a and P = "\<lambda>h. length (fst h) = n"
      and Q = "\<lambda>h. b \<in> set (fst h ! a)"])
  show "a \<in> set [0..<n]" using assms(2) by simp
  show "length (fst g) = n" by (rule assms(1))
  show "length (fst (if y \<noteq> b \<and> w \<in> set (pout ! y) then add_edge y b s else s)) = n"
    if "length (fst s) = n" for y s using that by (simp add: add_edge_length)
  show "b \<in> set (fst (if a \<noteq> b \<and> w \<in> set (pout ! a) then add_edge a b s else s) ! a)"
    if "length (fst s) = n" for s using that assms(2,3,4) by (simp add: add_edge_fst)
  show "b \<in> set (fst (if y \<noteq> b \<and> w \<in> set (pout ! y) then add_edge y b s else s) ! a)"
    if "length (fst s) = n" "b \<in> set (fst s ! a)" for y s
    using that assms(2) add_edge_keeps[of s n a b y b] by simp
qed

lemma edges_into_adds:
  assumes "length (fst g) = n" and "a < n" and "a \<noteq> b" and "w \<in> set (pout ! a)"
    and "w \<in> set (pin ! b)"
  shows "b \<in> set (fst (edges_into n pin pout b g) ! a)"
  unfolding edges_into_def
proof (rule fold_establish[where x = w and P = "\<lambda>h. length (fst h) = n"
      and Q = "\<lambda>h. b \<in> set (fst h ! a)"])
  show "w \<in> set (pin ! b)" by (rule assms(5))
  show "length (fst g) = n" by (rule assms(1))
  show "length (fst (edges_of_wire n pout b y s)) = n" if "length (fst s) = n" for y s
    using that by (simp add: edges_of_wire_length)
  show "b \<in> set (fst (edges_of_wire n pout b w s) ! a)" if "length (fst s) = n" for s
    using that assms(2,3,4) by (rule edges_of_wire_adds)
  show "b \<in> set (fst (edges_of_wire n pout b y s) ! a)"
    if "length (fst s) = n" "b \<in> set (fst s ! a)" for y s
    using that(1) assms(2) that(2) by (rule edges_of_wire_keeps)
qed

lemma build_graph_complete:
  assumes "a < n" and "b < n" and "a \<noteq> b" and "w \<in> set (pout ! a)" and "w \<in> set (pin ! b)"
  shows "b \<in> set (fst (build_graph n pin pout) ! a)"
  unfolding build_graph_def
proof (rule fold_establish[where x = b and P = "\<lambda>h. length (fst h) = n"
      and Q = "\<lambda>h. b \<in> set (fst h ! a)"])
  show "b \<in> set [0..<n]" using assms(2) by simp
  show "length (fst (replicate n ([]::nat list), replicate n (0::64 word))) = n" by simp
  show "length (fst (edges_into n pin pout y s)) = n" if "length (fst s) = n" for y s
    using that by (simp add: edges_into_length)
  show "b \<in> set (fst (edges_into n pin pout b s) ! a)" if "length (fst s) = n" for s
    using that assms(1,3,4,5) by (rule edges_into_adds)
  show "b \<in> set (fst (edges_into n pin pout y s) ! a)"
    if "length (fst s) = n" "b \<in> set (fst s ! a)" for y s
    using that(1) assms(1) that(2) by (rule edges_into_keeps)
qed

subsection \<open>Kahn's algorithm\<close>

lemma word64_of_nat_zero:
  assumes "k < 2 ^ 64"
  shows "((of_nat k :: 64 word) = 0) = (k = 0)"
proof
  assume "(of_nat k :: 64 word) = 0"
  then have "unat (of_nat k :: 64 word) = 0" by simp
  then have "k mod 2 ^ 64 = 0" by (simp add: unat_of_nat)
  then show "k = 0" using assms by simp
qed simp

lemma word64_of_nat_pred:
  assumes "0 < k"
  shows "(of_nat k :: 64 word) - 1 = of_nat (k - 1)"
  using assms by (cases k) simp_all

lemma relax_fold:
  assumes "length deg = n" and "set vs \<subseteq> {..<n}"
    and "\<forall>v<n. deg ! v = of_nat (k v)" and "\<forall>v<n. k v < 2 ^ 64"
    and "\<forall>v<n. count_list vs v \<le> k v"
  shows "\<exists>deg' new. fold relax vs (deg, q) = (deg', q @ new) \<and> length deg' = n
           \<and> (\<forall>v<n. deg' ! v = of_nat (k v - count_list vs v))
           \<and> distinct new \<and> set new = {v \<in> set vs. k v = count_list vs v}"
  using assms
proof (induction vs arbitrary: deg q k)
  case Nil
  have "fold relax [] (deg, q) = (deg, q @ []) \<and> length deg = n
           \<and> (\<forall>v<n. deg ! v = of_nat (k v - count_list [] v))
           \<and> distinct ([]::nat list) \<and> set [] = {v \<in> set []. k v = count_list [] v}"
    using Nil by simp
  then show ?case by blast
next
  case (Cons u vs)
  define deg1 where "deg1 = deg[u := deg ! u - 1]"
  define k1 where "k1 = k(u := k u - 1)"
  define q1 where "q1 = (if deg1 ! u = 0 then q @ [u] else q)"
  have un: "u < n" using Cons.prems(2) by simp
  have ku: "count_list vs u + 1 \<le> k u" using Cons.prems(5)[rule_format, OF un] by simp
  have step: "fold relax (u # vs) (deg, q) = fold relax vs (deg1, q1)"
    by (simp add: relax_def Let_def deg1_def q1_def)
  have a1: "length deg1 = n" using Cons.prems(1) by (simp add: deg1_def)
  have a2: "set vs \<subseteq> {..<n}" using Cons.prems(2) by simp
  have "deg1 ! u = deg ! u - 1" using Cons.prems(1) un by (simp add: deg1_def)
  also have "\<dots> = of_nat (k u) - 1" using Cons.prems(3)[rule_format, OF un] by (simp only:)
  also have "\<dots> = of_nat (k u - 1)" using ku by (intro word64_of_nat_pred) simp
  finally have d1u: "deg1 ! u = of_nat (k u - 1)" .
  have a3: "\<forall>v<n. deg1 ! v = of_nat (k1 v)"
  proof (intro allI impI)
    fix v assume v: "v < n"
    show "deg1 ! v = of_nat (k1 v)"
    proof (cases "v = u")
      case True
      then show ?thesis using d1u by (simp add: k1_def)
    next
      case False
      then show ?thesis using Cons.prems(3)[rule_format, OF v]
        by (simp add: deg1_def k1_def)
    qed
  qed
  have a4: "\<forall>v<n. k1 v < 2 ^ 64"
  proof (intro allI impI)
    fix v assume "v < n"
    then have "k v < 2 ^ 64" using Cons.prems(4)[rule_format] by simp
    moreover have "k1 v \<le> k v" by (simp add: k1_def)
    ultimately show "k1 v < 2 ^ 64" by linarith
  qed
  have a5: "\<forall>v<n. count_list vs v \<le> k1 v"
  proof (intro allI impI)
    fix v assume v: "v < n"
    show "count_list vs v \<le> k1 v"
    proof (cases "v = u")
      case True
      then show ?thesis using ku by (simp add: k1_def)
    next
      case False
      then show ?thesis using Cons.prems(5)[rule_format, OF v] by (simp add: k1_def)
    qed
  qed
  from Cons.IH[OF a1 a2 a3 a4 a5, of q1] obtain deg' new where
    r: "fold relax vs (deg1, q1) = (deg', q1 @ new)" "length deg' = n"
      "\<forall>v<n. deg' ! v = of_nat (k1 v - count_list vs v)"
      "distinct new" "set new = {v \<in> set vs. k1 v = count_list vs v}" by blast
  have z: "(deg1 ! u = 0) = (k u = 1)"
  proof -
    have "k u - 1 < 2 ^ 64" using Cons.prems(4)[rule_format, OF un] by (simp add: less_imp_diff_less)
    from word64_of_nat_zero[OF this] have "(deg1 ! u = 0) = (k u - 1 = 0)" by (simp add: d1u)
    then show ?thesis using ku by auto
  qed
  have d: "\<forall>v<n. deg' ! v = of_nat (k v - count_list (u # vs) v)"
  proof (intro allI impI)
    fix v assume v: "v < n"
    have "k1 v - count_list vs v = k v - count_list (u # vs) v"
      by (cases "v = u") (simp_all add: k1_def)
    then show "deg' ! v = of_nat (k v - count_list (u # vs) v)" using r(3)[rule_format, OF v] by simp
  qed
  show ?case
  proof (cases "k u = 1")
    case True
    then have c0: "count_list vs u = 0" using ku by simp
    then have notin: "u \<notin> set vs" by (simp add: count_list_0_iff)
    have q1: "q1 = q @ [u]" using True z by (simp add: q1_def)
    have e: "fold relax (u # vs) (deg, q) = (deg', q @ (u # new))"
      using step r(1) q1 by simp
    have dn: "distinct (u # new)" using r(4,5) notin by simp
    have sn: "set (u # new) = {v \<in> set (u # vs). k v = count_list (u # vs) v}"
    proof (intro set_eqI iffI)
      fix v assume "v \<in> set (u # new)"
      then show "v \<in> {v \<in> set (u # vs). k v = count_list (u # vs) v}"
        using r(5) True c0 notin by (cases "v = u") (auto simp add: k1_def)
    next
      fix v assume "v \<in> {v \<in> set (u # vs). k v = count_list (u # vs) v}"
      then show "v \<in> set (u # new)"
        using r(5) by (cases "v = u") (auto simp add: k1_def)
    qed
    from e r(2) d dn sn show ?thesis by blast
  next
    case False
    have q1: "q1 = q" using False z by (simp add: q1_def)
    have e: "fold relax (u # vs) (deg, q) = (deg', q @ new)"
      using step r(1) q1 by simp
    have sn: "set new = {v \<in> set (u # vs). k v = count_list (u # vs) v}"
    proof (intro set_eqI iffI)
      fix v assume "v \<in> set new"
      then show "v \<in> {v \<in> set (u # vs). k v = count_list (u # vs) v}"
        using r(5) ku by (cases "v = u") (auto simp add: k1_def)
    next
      fix v assume v: "v \<in> {v \<in> set (u # vs). k v = count_list (u # vs) v}"
      show "v \<in> set new"
      proof (cases "v = u")
        case True
        then have "k u = count_list vs u + 1" using v by simp
        then have "k1 u = count_list vs u" "count_list vs u \<noteq> 0" using False by (simp_all add: k1_def)
        then have "k1 u = count_list vs u" "u \<in> set vs" by (simp_all add: count_list_0_iff)
        then show ?thesis using r(5) True by simp
      next
        case False
        then show ?thesis using v r(5) by (auto simp add: k1_def)
      qed
    qed
    from e r(2) d r(4) sn show ?thesis by blast
  qed
qed

lemma in_edges_remove:
  assumes "finite S" and "u \<in> S"
  shows "in_edges adj S v = in_edges adj (S - {u}) v + count_list (adj ! u) v"
  using assms by (simp add: in_edges_def sum.remove add.commute)

lemma in_edges_mono:
  assumes "finite T" and "S \<subseteq> T"
  shows "in_edges adj S v \<le> in_edges adj T v"
  unfolding in_edges_def using assms by (intro sum_mono2) simp_all

lemma in_edges_zero_iff:
  assumes "finite S"
  shows "(in_edges adj S v = 0) = (\<forall>a \<in> S. v \<notin> set (adj ! a))"
  using assms by (simp add: in_edges_def count_list_0_iff)

lemma position_less_length: "x \<in> set xs \<Longrightarrow> position x xs < length xs"
  unfolding position_def by (induction xs) auto

lemma position_append_in: "x \<in> set xs \<Longrightarrow> position x (xs @ ys) = position x xs"
  unfolding position_def by (simp add: takeWhile_append1)

lemma position_append_notin: "x \<notin> set xs \<Longrightarrow> position x (xs @ [x]) = length xs"
  unfolding position_def by (induction xs) auto

lemma precedes_append: "precedes a b xs \<Longrightarrow> precedes a b (xs @ ys)"
  by (simp add: precedes_def position_append_in)

lemma precedes_last: "a \<in> set xs \<Longrightarrow> u \<notin> set xs \<Longrightarrow> precedes a u (xs @ [u])"
  by (simp add: precedes_def position_append_in position_append_notin position_less_length)

lemma kahn_step:
  assumes A1: "length adj = n"
    and A2: "\<forall>a<n. set (adj ! a) \<subseteq> {..<n}"
    and A3: "\<forall>v<n. in_edges adj {..<n} v < 2 ^ 64"
    and inv: "kahn_inv n adj deg (u # q1) order"
  shows "\<exists>deg' q2. fold relax (adj ! u) (deg, q1) = (deg', q2)
           \<and> kahn_inv n adj deg' q2 (order @ [u])"
proof -
  let ?R = "{..<n} - set order"
  let ?R' = "{..<n} - set (order @ [u])"
  let ?k = "in_edges adj ?R"
  let ?c = "count_list (adj ! u)"
  from inv have ld: "length deg = n" and dist: "distinct (order @ u # q1)"
    and sub: "set (order @ u # q1) \<subseteq> {..<n}"
    and degs: "\<forall>v<n. deg ! v = of_nat (?k v)"
    and mem: "\<forall>v<n. (v \<in> set (order @ u # q1)) = (?k v = 0)"
    and prec: "\<forall>b\<in>set order. \<forall>a<n. b \<in> set (adj ! a) \<longrightarrow> precedes a b order"
    by (simp_all add: kahn_inv_def)
  have un: "u < n" using sub by simp
  have uo: "u \<notin> set order" and uq: "u \<notin> set q1" using dist by simp_all
  have uR: "u \<in> ?R" using un uo by simp
  have R': "?R' = ?R - {u}" by auto
  have split: "?k v = in_edges adj ?R' v + ?c v" for v
    unfolding R' using uR by (intro in_edges_remove) simp_all
  have small: "\<forall>v<n. ?k v < 2 ^ 64"
  proof (intro allI impI)
    fix v assume v: "v < n"
    have "?k v \<le> in_edges adj {..<n} v" by (intro in_edges_mono) auto
    also have "\<dots> < 2 ^ 64" using A3 v by simp
    finally show "?k v < 2 ^ 64" .
  qed
  have le: "\<forall>v<n. ?c v \<le> ?k v" using split by simp
  have vs: "set (adj ! u) \<subseteq> {..<n}" using A2 un by simp
  from relax_fold[OF ld vs degs small le, of q1] obtain deg' new where
    f: "fold relax (adj ! u) (deg, q1) = (deg', q1 @ new)" and ld': "length deg' = n"
    and degs': "\<forall>v<n. deg' ! v = of_nat (?k v - ?c v)"
    and dn: "distinct new" and sn: "set new = {v \<in> set (adj ! u). ?k v = ?c v}"
    by (elim exE conjE)
  have k': "in_edges adj ?R' v = ?k v - ?c v" for v using split[of v] by simp
  have zero': "(in_edges adj ?R' v = 0) = (?k v = ?c v)" for v using split[of v] by auto
  have new_fresh: "v \<notin> set (order @ u # q1)" if "v \<in> set new" for v
  proof -
    from that sn have vu: "v \<in> set (adj ! u)" and e: "?k v = ?c v" by simp_all
    from vu vs have vn: "v < n" by auto
    from vu have "?c v \<noteq> 0" by (simp add: count_list_0_iff)
    with e have "?k v \<noteq> 0" by simp
    with mem[rule_format, OF vn] show ?thesis by simp
  qed
  have i2: "distinct ((order @ [u]) @ q1 @ new)"
    using dist dn new_fresh by auto
  have i3: "set ((order @ [u]) @ q1 @ new) \<subseteq> {..<n}"
    using sub sn vs by auto
  have i4: "\<forall>v<n. deg' ! v = of_nat (in_edges adj ?R' v)"
    using degs' k' by simp
  have i5: "\<forall>v<n. (v \<in> set ((order @ [u]) @ q1 @ new)) = (in_edges adj ?R' v = 0)"
  proof (intro allI impI)
    fix v assume vn: "v < n"
    have old: "(v \<in> set (order @ u # q1)) = (?k v = 0)" using mem[rule_format, OF vn] .
    show "(v \<in> set ((order @ [u]) @ q1 @ new)) = (in_edges adj ?R' v = 0)"
    proof
      assume "v \<in> set ((order @ [u]) @ q1 @ new)"
      then have "v \<in> set (order @ u # q1) \<or> v \<in> set new" by auto
      then show "in_edges adj ?R' v = 0"
      proof
        assume "v \<in> set (order @ u # q1)"
        with old have "?k v = 0" by simp
        then show ?thesis using split[of v] by simp
      next
        assume "v \<in> set new"
        with sn have "?k v = ?c v" by simp
        then show ?thesis using zero'[of v] by simp
      qed
    next
      assume z: "in_edges adj ?R' v = 0"
      then have e: "?k v = ?c v" using zero'[of v] by simp
      show "v \<in> set ((order @ [u]) @ q1 @ new)"
      proof (cases "?c v = 0")
        case True
        with e have "?k v = 0" by simp
        with old have "v \<in> set (order @ u # q1)" by simp
        then show ?thesis by auto
      next
        case False
        then have "v \<in> set (adj ! u)" by (simp add: count_list_0_iff)
        with e sn have "v \<in> set new" by simp
        then show ?thesis by simp
      qed
    qed
  qed
  have i6: "\<forall>b\<in>set (order @ [u]). \<forall>a<n. b \<in> set (adj ! a) \<longrightarrow> precedes a b (order @ [u])"
  proof (intro ballI allI impI)
    fix b a assume b: "b \<in> set (order @ [u])" and an: "a < n" and e: "b \<in> set (adj ! a)"
    show "precedes a b (order @ [u])"
    proof (cases "b \<in> set order")
      case True
      with prec an e have "precedes a b order" by simp
      then show ?thesis by (rule precedes_append)
    next
      case False
      with b have bu: "b = u" by simp
      have "(u \<in> set (order @ u # q1)) = (?k u = 0)" using mem[rule_format, OF un] .
      then have "?k u = 0" by simp
      then have "\<forall>x \<in> ?R. u \<notin> set (adj ! x)" by (simp add: in_edges_zero_iff)
      with e bu have "a \<notin> ?R" by auto
      with an have "a \<in> set order" by simp
      then show ?thesis unfolding bu using uo by (rule precedes_last)
    qed
  qed
  have "kahn_inv n adj deg' (q1 @ new) (order @ [u])"
    unfolding kahn_inv_def using ld' i2 i3 i4 i5 i6 by (intro conjI)
  with f show ?thesis by (intro exI[where x = deg'] exI[where x = "q1 @ new"] conjI)
qed

lemma kahn_inv_length:
  assumes "kahn_inv n adj deg q order"
  shows "length order + length q \<le> n"
proof -
  from assms have d: "distinct (order @ q)" and s: "set (order @ q) \<subseteq> {..<n}"
    by (simp_all add: kahn_inv_def)
  have "length (order @ q) = card (set (order @ q))" using distinct_card[OF d] by (simp only:)
  also have "\<dots> \<le> card {..<n}" using s by (intro card_mono) simp_all
  finally show ?thesis by simp
qed

lemma kahn_returns:
  assumes A1: "length adj = n"
    and A2: "\<forall>a<n. set (adj ! a) \<subseteq> {..<n}"
    and A3: "\<forall>v<n. in_edges adj {..<n} v < 2 ^ 64"
    and inv: "kahn_inv n adj deg q order"
  shows "\<exists>res deg'. kahn_loop adj deg q order = Some res \<and> kahn_inv n adj deg' [] res"
  using inv
proof (induction "n - length order" arbitrary: deg q order rule: less_induct)
  case less
  show ?case
  proof (cases q)
    case Nil
    have "kahn_loop adj deg q order = Some order" unfolding Nil by (subst kahn_loop.simps) simp
    moreover have "kahn_inv n adj deg [] order" using less.prems Nil by simp
    ultimately have "kahn_loop adj deg q order = Some order \<and> kahn_inv n adj deg [] order" ..
    then show ?thesis by - (rule exI, rule exI, assumption)
  next
    case (Cons u q1)
    from kahn_step[OF A1 A2 A3 less.prems[unfolded Cons]] obtain deg' q2 where
      f: "fold relax (adj ! u) (deg, q1) = (deg', q2)"
      and inv': "kahn_inv n adj deg' q2 (order @ [u])" by (elim exE conjE)
    from kahn_inv_length[OF less.prems] Cons have "length order < n" by simp
    then have "n - length (order @ [u]) < n - length order" by simp
    from less.hyps[OF this inv'] obtain res deg'' where
      r: "kahn_loop adj deg' q2 (order @ [u]) = Some res" and i: "kahn_inv n adj deg'' [] res"
      by (elim exE conjE)
    have "kahn_loop adj deg q order = kahn_loop adj deg' q2 (order @ [u])"
      unfolding Cons by (subst kahn_loop.simps) (simp add: f)
    with r have "kahn_loop adj deg q order = Some res \<and> kahn_inv n adj deg'' [] res"
      using i by simp
    then show ?thesis by - (rule exI, rule exI, assumption)
  qed
qed

lemma kahn_init:
  assumes g: "graph_ok n (adj, deg)"
    and A3: "\<forall>v<n. in_edges adj {..<n} v < 2 ^ 64"
  shows "kahn_inv n adj deg (filter (\<lambda>i. deg ! i = 0) [0..<n]) []"
proof -
  from g have ld: "length deg = n" and d: "\<forall>b<n. deg ! b = of_nat (in_edges adj {..<n} b)"
    by (simp_all add: graph_ok_def)
  have z: "(deg ! v = 0) = (in_edges adj {..<n} v = 0)" if "v < n" for v
    using d[rule_format, OF that] word64_of_nat_zero[OF A3[rule_format, OF that]] by simp
  have i5: "\<forall>v<n. (v \<in> set ([] @ filter (\<lambda>i. deg ! i = 0) [0..<n]))
                  = (in_edges adj ({..<n} - set []) v = 0)"
    using z by simp
  have i4: "\<forall>v<n. deg ! v = of_nat (in_edges adj ({..<n} - set []) v)" using d by simp
  have i2: "distinct ([] @ filter (\<lambda>i. deg ! i = 0) [0..<n])" by simp
  have i3: "set ([] @ filter (\<lambda>i. deg ! i = 0) [0..<n]) \<subseteq> {..<n}" by auto
  have i6: "\<forall>b\<in>set []. \<forall>a<n. b \<in> set (adj ! a) \<longrightarrow> precedes a b []" by simp
  show ?thesis unfolding kahn_inv_def using ld i2 i3 i4 i5 i6 by (intro conjI)
qed

subsection \<open>The evaluation order\<close>

lemma in_edges_le_entries:
  assumes "length adj = n"
  shows "in_edges adj {..<n} v \<le> sum_list (map length adj)"
proof -
  have "in_edges adj {..<n} v \<le> (\<Sum>a\<in>{..<n}. length (adj ! a))"
    unfolding in_edges_def by (intro sum_mono count_le_length)
  also have "\<dots> = sum_list (map length adj)"
    using assms by (simp add: sum_list_sum_nth atLeast0LessThan)
  finally show ?thesis .
qed

lemma dependency_is_edge:
  assumes "mi \<in> set (input_mappings c)" and "mo \<in> set (output_mappings c)"
    and "depends_on c mi mo" and "part_index mi < n" and "part_index mo < n"
  shows "part_index mi \<in> set (fst (build_graph n (part_inputs c n) (part_outputs c n)) ! part_index mo)"
proof (rule build_graph_complete[where w = "chip_pin mi"])
  from assms(3) have dep: "chip_pin mi = chip_pin mo" "internal_wire c (chip_pin mi)"
    "part_index mi \<noteq> part_index mo"
    unfolding depends_on_def by blast+
  show "part_index mo < n" "part_index mi < n" by (rule assms(5), rule assms(4))
  show "part_index mo \<noteq> part_index mi" using dep(3) by simp
  have "\<exists>m. chip_pin mi = chip_pin m \<and> m \<in> set (output_mappings c) \<and> part_index m = part_index mo"
    using dep(1) assms(2) by blast
  then show "chip_pin mi \<in> set (part_outputs c n ! part_index mo)"
    unfolding part_outputs_set(1)[OF assms(5)] by simp
  have "\<exists>m. chip_pin mi = chip_pin m \<and> m \<in> set (input_mappings c) \<and> part_index m = part_index mi
      \<and> internal_wire c (chip_pin m)"
    using dep(2) assms(1) by blast
  then show "chip_pin mi \<in> set (part_inputs c n ! part_index mi)"
    unfolding part_inputs_set(1)[OF assms(4)] by simp
qed

lemma edge_is_dependency:
  assumes "a < n" and "b \<in> set (fst (build_graph n (part_inputs c n) (part_outputs c n)) ! a)"
  shows "\<exists>mi \<in> set (input_mappings c). \<exists>mo \<in> set (output_mappings c).
           part_index mi = b \<and> part_index mo = a \<and> depends_on c mi mo"
proof -
  let ?pin = "part_inputs c n" and ?pout = "part_outputs c n"
  from build_graph_sound[of n ?pin ?pout] assms
  have bn: "b < n" and ab: "a \<noteq> b" and w: "\<exists>w\<in>set (?pin ! b). w \<in> set (?pout ! a)"
    by (simp_all add: edges_sound_def)
  from w obtain w where wi: "w \<in> set (?pin ! b)" and wo: "w \<in> set (?pout ! a)" by (elim bexE)
  from wi obtain mi where mi: "mi \<in> set (input_mappings c)" "part_index mi = b"
    "chip_pin mi = w" "internal_wire c (chip_pin mi)"
    by (auto simp add: part_inputs_set(1)[OF bn])
  from wo obtain mo where mo: "mo \<in> set (output_mappings c)" "part_index mo = a" "chip_pin mo = w"
    by (auto simp add: part_outputs_set(1)[OF assms(1)])
  have "depends_on c mi mo" using mi mo ab by (simp add: depends_on_def)
  with mi(1,2) mo(1,2) show ?thesis by (intro bexI conjI)
qed

lemma stuck_parts_no_order:
  assumes inv: "kahn_inv n adj deg [] res" and short: "length res \<noteq> n"
    and p: "distinct p" "set p = {..<n}"
    and resp: "\<forall>a<n. \<forall>b \<in> set (adj ! a). b < n \<and> precedes a b p"
  shows False
proof -
  let ?U = "{..<n} - set res"
  from inv have d: "distinct res" and s: "set res \<subseteq> {..<n}"
    and mem: "\<forall>v<n. (v \<in> set res) = (in_edges adj ?U v = 0)"
    by (simp_all add: kahn_inv_def)
  have c1: "card (set res) = length res" using d by (rule distinct_card)
  have "card (set res) \<le> card {..<n}" using s by (intro card_mono) simp_all
  then have "length res \<le> n" using c1 by simp
  with short have lt: "length res < n" by simp
  have "set res \<noteq> {..<n}"
  proof
    assume "set res = {..<n}"
    then have "card (set res) = n" by simp
    with c1 lt show False by simp
  qed
  with s have "\<exists>v0. v0 \<in> ?U" by blast
  then obtain v0 where v0: "v0 \<in> ?U" ..
  from ex_has_least_nat[of "\<lambda>v. v \<in> ?U" v0 "\<lambda>v. position v p", OF v0]
  obtain v where v: "v \<in> ?U" and least: "\<forall>y. y \<in> ?U \<longrightarrow> position v p \<le> position y p"
    by (elim exE conjE)
  from v have vn: "v < n" and vr: "v \<notin> set res" by simp_all
  from mem[rule_format, OF vn] vr have "in_edges adj ?U v \<noteq> 0" by simp
  then have "\<not> (\<forall>a \<in> ?U. v \<notin> set (adj ! a))" by (simp add: in_edges_zero_iff)
  then obtain a where a: "a \<in> ?U" and e: "v \<in> set (adj ! a)" by blast
  from a have an: "a < n" by simp
  from resp[rule_format, OF an e] have "precedes a v p" by simp
  then have "position a p < position v p" by (simp add: precedes_def)
  moreover have "position v p \<le> position a p" using least[rule_format, OF a] .
  ultimately show False by simp
qed

text \<open>
  The adjacency lists hold at most one entry for each part and each wire that a part
  reads, and a part reads at most as many wires as it has input mappings.
\<close>

lemma add_edge_entries:
  assumes "a < length (fst g)"
  shows "sum_list (map length (fst (add_edge a b g))) = sum_list (map length (fst g)) + 1"
proof -
  have "map length ((fst g)[a := fst g ! a @ [b]]) = (map length (fst g))[a := length (fst g ! a) + 1]"
    by (simp add: map_update)
  moreover have "sum_list ((map length (fst g))[a := length (fst g ! a) + 1])
      = sum_list (map length (fst g)) + (length (fst g ! a) + 1) - map length (fst g) ! a"
    using assms by (intro sum_list_update) simp
  ultimately show ?thesis using assms by (simp add: add_edge_fst)
qed

lemma edges_of_wire_entries_fold:
  assumes "length (fst g) = n" and "set xs \<subseteq> {..<n}"
  shows "sum_list (map length (fst (fold (\<lambda>a g. if a \<noteq> b \<and> w \<in> set (pout ! a) then add_edge a b g else g) xs g)))
           \<le> sum_list (map length (fst g)) + length xs"
  using assms
proof (induction xs arbitrary: g)
  case Nil
  then show ?case by simp
next
  case (Cons a xs)
  let ?g = "if a \<noteq> b \<and> w \<in> set (pout ! a) then add_edge a b g else g"
  from Cons.prems have a: "a < length (fst g)" by simp
  have l: "length (fst ?g) = n" using Cons.prems(1) by (simp add: add_edge_length)
  have s: "sum_list (map length (fst ?g)) \<le> sum_list (map length (fst g)) + 1"
    using add_edge_entries[OF a, of b] by simp
  from Cons.prems(2) have "set xs \<subseteq> {..<n}" by simp
  from Cons.IH[OF l this] s show ?case by simp
qed

lemma edges_of_wire_entries:
  assumes "length (fst g) = n"
  shows "sum_list (map length (fst (edges_of_wire n pout b w g))) \<le> sum_list (map length (fst g)) + n"
  using edges_of_wire_entries_fold[OF assms, of "[0..<n]" b w pout]
  by (simp add: edges_of_wire_def atLeast0LessThan)

lemma edges_into_entries_fold:
  assumes "length (fst g) = n"
  shows "sum_list (map length (fst (fold (edges_of_wire n pout b) ws g)))
           \<le> sum_list (map length (fst g)) + n * length ws"
  using assms
proof (induction ws arbitrary: g)
  case Nil
  then show ?case by simp
next
  case (Cons w ws)
  have l: "length (fst (edges_of_wire n pout b w g)) = n"
    using Cons.prems by (simp add: edges_of_wire_length)
  from Cons.IH[OF l] edges_of_wire_entries[OF Cons.prems, of pout b w]
  show ?case by simp
qed

lemma edges_into_entries:
  assumes "length (fst g) = n"
  shows "sum_list (map length (fst (edges_into n pin pout b g)))
           \<le> sum_list (map length (fst g)) + n * length (pin ! b)"
  unfolding edges_into_def by (rule edges_into_entries_fold[OF assms])

lemma build_graph_entries_fold:
  assumes "length (fst g) = n"
  shows "sum_list (map length (fst (fold (edges_into n pin pout) bs g)))
           \<le> sum_list (map length (fst g)) + n * sum_list (map (\<lambda>b. length (pin ! b)) bs)"
  using assms
proof (induction bs arbitrary: g)
  case Nil
  then show ?case by simp
next
  case (Cons b bs)
  have l: "length (fst (edges_into n pin pout b g)) = n"
    using Cons.prems by (simp add: edges_into_length)
  from Cons.IH[OF l] edges_into_entries[OF Cons.prems, of pin pout b]
  show ?case by (simp add: add_mult_distrib2)
qed

lemma build_graph_entries:
  assumes "length pin = n"
  shows "sum_list (map length (fst (build_graph n pin pout))) \<le> n * sum_list (map length pin)"
proof -
  have "map (\<lambda>b. length (pin ! b)) [0..<n] = map length pin"
    using assms by (simp add: list_eq_iff_nth_eq)
  with build_graph_entries_fold[of "(replicate n [], replicate n 0)" n pin pout "[0..<n]"]
  show ?thesis by (simp add: build_graph_def sum_list_replicate)
qed

lemma insort_insert_length: "length (insort_insert x xs) \<le> length xs + 1"
  by (simp add: insort_insert_key_def)

lemma update_entries:
  assumes "length ys \<le> length (pi ! i) + 1"
  shows "sum_list (map length (pi[i := ys])) \<le> sum_list (map length pi) + 1"
proof (cases "i < length pi")
  case True
  have "map length (pi[i := ys]) = (map length pi)[i := length ys]" by (simp add: map_update)
  moreover have "sum_list ((map length pi)[i := length ys])
      = sum_list (map length pi) + length ys - map length pi ! i"
    using True by (intro sum_list_update) simp
  ultimately show ?thesis using True assms by simp
next
  case False
  then show ?thesis by (simp add: list_update_beyond)
qed

lemma part_inputs_length:
  "length (fold (\<lambda>m pi.
             if chip_pin m = ''true'' \<or> chip_pin m = ''false'' then pi
             else if \<not> is_chip_input c (chip_pin m) \<and> \<not> is_chip_output c (chip_pin m)
                  then pi[part_index m := insort_insert (chip_pin m) (pi ! part_index m)]
                  else pi) ms pi) = length pi"
  by (induction ms arbitrary: pi) simp_all

lemma part_inputs_entries_fold:
  "sum_list (map length (fold (\<lambda>m pi.
             if chip_pin m = ''true'' \<or> chip_pin m = ''false'' then pi
             else if \<not> is_chip_input c (chip_pin m) \<and> \<not> is_chip_output c (chip_pin m)
                  then pi[part_index m := insort_insert (chip_pin m) (pi ! part_index m)]
                  else pi) ms pi))
     \<le> sum_list (map length pi) + length ms"
proof (induction ms arbitrary: pi)
  case Nil
  then show ?case by simp
next
  case (Cons m ms)
  let ?f = "\<lambda>m pi.
             if chip_pin m = ''true'' \<or> chip_pin m = ''false'' then pi
             else if \<not> is_chip_input c (chip_pin m) \<and> \<not> is_chip_output c (chip_pin m)
                  then pi[part_index m := insort_insert (chip_pin m) (pi ! part_index m)]
                  else pi"
  have s: "sum_list (map length (?f m pi)) \<le> sum_list (map length pi) + 1"
    using update_entries[where ys = "insort_insert (chip_pin m) (pi ! part_index m)"
        and pi = pi and i = "part_index m", OF insort_insert_length]
    by simp
  have a: "sum_list (map length (fold ?f ms (?f m pi))) \<le> sum_list (map length (?f m pi)) + length ms"
    by (rule Cons.IH)
  have b: "sum_list (map length (?f m pi)) + length ms \<le> sum_list (map length pi) + 1 + length ms"
    using s by (simp only: add_le_cancel_right)
  from order_trans[OF a b] show ?case by simp
qed

lemma part_inputs_entries:
  "sum_list (map length (part_inputs c n)) \<le> length (input_mappings c)"
  using part_inputs_entries_fold[of c "input_mappings c" "replicate n []"]
  by (simp add: part_inputs_def sum_list_replicate)

lemma edge_count_le:
  "edge_count c \<le> length (input_mappings c) * length (sub_chips c)"
proof -
  let ?n = "length (sub_chips c)"
  have l: "length (part_inputs c ?n) = ?n"
    by (simp add: part_inputs_def part_inputs_length)
  have "edge_count c \<le> ?n * sum_list (map length (part_inputs c ?n))"
    using build_graph_entries[OF l] by (simp add: edge_count_def Let_def)
  also have "\<dots> \<le> ?n * length (input_mappings c)"
    by (intro mult_le_mono2 part_inputs_entries)
  finally show ?thesis by (simp add: mult.commute)
qed

text \<open>
  Claim C7, as the code has it. \<open>compute_eval_order\<close> has no error to report: it returns,
  and its only result is an evaluation order. With parts, the order holds every part
  once. Whenever the parts can be ordered so that, for every internal wire, every part
  that reads it comes after every other part that writes it, the computed order is such
  an order. When they cannot, which is when the dependencies form a cycle, the computed
  order is the source order \<open>0, ..., n - 1\<close>. The part indices of the mappings are below
  the number of parts, as \<open>build_wiring\<close> makes them, and the number of input mappings
  times the number of parts is below \<open>2^64\<close>, so that no in-degree wraps around.
\<close>

theorem compute_eval_order_sorts:
  assumes wf: "\<forall>m \<in> set (input_mappings c) \<union> set (output_mappings c).
                 part_index m < length (sub_chips c)"
    and few: "length (input_mappings c) * length (sub_chips c) < 2 ^ 64"
  shows "\<exists>order. compute_eval_order c = Some (c\<lparr>eval_order := order\<rparr>)
           \<and> (0 < length (sub_chips c) \<longrightarrow>
                 distinct order \<and> set order = {..<length (sub_chips c)})
           \<and> ((\<exists>p. distinct p \<and> set p = {..<length (sub_chips c)} \<and> readers_after_writers c p)
                 \<longrightarrow> readers_after_writers c order)
           \<and> (\<not> (\<exists>p. distinct p \<and> set p = {..<length (sub_chips c)} \<and> readers_after_writers c p)
                 \<longrightarrow> order = [0..<length (sub_chips c)])"
proof (cases "length (sub_chips c) = 0")
  case True
  have ins: "input_mappings c = []"
  proof (cases "input_mappings c")
    case (Cons m ms)
    then have "m \<in> set (input_mappings c) \<union> set (output_mappings c)" by simp
    from wf[rule_format, OF this] True show ?thesis by simp
  qed simp
  have raw: "readers_after_writers c order" for order
    by (simp add: readers_after_writers_def misordered_def ins)
  have e: "compute_eval_order c = Some (c\<lparr>eval_order := eval_order c\<rparr>)"
    using True by (simp add: compute_eval_order_def)
  have ex: "\<exists>p. distinct p \<and> set p = {..<length (sub_chips c)} \<and> readers_after_writers c p"
    using True raw[of "[]"] by (intro exI[where x = "[]"]) simp
  have "compute_eval_order c = Some (c\<lparr>eval_order := eval_order c\<rparr>)
           \<and> (0 < length (sub_chips c) \<longrightarrow>
                 distinct (eval_order c) \<and> set (eval_order c) = {..<length (sub_chips c)})
           \<and> ((\<exists>p. distinct p \<and> set p = {..<length (sub_chips c)} \<and> readers_after_writers c p)
                 \<longrightarrow> readers_after_writers c (eval_order c))
           \<and> (\<not> (\<exists>p. distinct p \<and> set p = {..<length (sub_chips c)} \<and> readers_after_writers c p)
                 \<longrightarrow> eval_order c = [0..<length (sub_chips c)])"
    using e True raw[of "eval_order c"] ex by simp
  then show ?thesis by (rule exI)
next
  case False
  let ?n = "length (sub_chips c)"
  let ?pin = "part_inputs c ?n" and ?pout = "part_outputs c ?n"
  let ?g = "build_graph ?n ?pin ?pout"
  let ?adj = "fst ?g" and ?deg = "snd ?g"
  have g: "graph_ok ?n (?adj, ?deg)" using build_graph_ok[of ?n ?pin ?pout] by simp
  then have A1: "length ?adj = ?n" by (simp add: graph_ok_def)
  have snd0: "edges_sound ?n ?pin ?pout ?g" by (rule build_graph_sound)
  have A2: "\<forall>a<?n. set (?adj ! a) \<subseteq> {..<?n}"
    using snd0 by (auto simp add: edges_sound_def)
  have A3: "\<forall>v<?n. in_edges ?adj {..<?n} v < 2 ^ 64"
  proof (intro allI impI)
    fix v
    have "in_edges ?adj {..<?n} v \<le> sum_list (map length ?adj)" using A1 by (rule in_edges_le_entries)
    also have "\<dots> = edge_count c" by (simp add: edge_count_def Let_def)
    also have "\<dots> \<le> length (input_mappings c) * length (sub_chips c)" by (rule edge_count_le)
    also have "\<dots> < 2 ^ 64" by (rule few)
    finally show "in_edges ?adj {..<?n} v < 2 ^ 64" .
  qed
  from kahn_returns[OF A1 A2 A3 kahn_init[OF g A3]] obtain res deg' where
    k: "kahn_loop ?adj ?deg (filter (\<lambda>i. ?deg ! i = 0) [0..<?n]) [] = Some res"
    and inv: "kahn_inv ?n ?adj deg' [] res" by (elim exE conjE)
  let ?order = "if length res \<noteq> ?n then [0..<?n] else res"
  have e: "compute_eval_order c = Some (c\<lparr>eval_order := ?order\<rparr>)"
    using False k by (simp add: compute_eval_order_def Let_def case_prod_beta)
  from inv have d: "distinct res" and s: "set res \<subseteq> {..<?n}"
    and prec: "\<forall>b\<in>set res. \<forall>a<?n. b \<in> set (?adj ! a) \<longrightarrow> precedes a b res"
    by (simp_all add: kahn_inv_def)
  have edges_respected: "\<forall>a<?n. \<forall>b \<in> set (?adj ! a). b < ?n \<and> precedes a b p"
    if rp: "readers_after_writers c p" for p
  proof (intro allI impI ballI)
    fix a b assume a: "a < ?n" and b: "b \<in> set (?adj ! a)"
    from A2[rule_format, OF a] b have bn: "b < ?n" by auto
    from edge_is_dependency[OF a b] obtain mi mo where
      m: "mi \<in> set (input_mappings c)" "mo \<in> set (output_mappings c)"
      and i: "part_index mi = b" "part_index mo = a" and dep: "depends_on c mi mo"
      by (elim bexE conjE)
    from rp[unfolded readers_after_writers_iff, rule_format, OF m dep] i
    have "precedes a b p" by simp
    with bn show "b < ?n \<and> precedes a b p" ..
  qed
  show ?thesis
  proof (cases "length res = ?n")
    case True
    have "card (set res) = card {..<?n}" using distinct_card[OF d] True by simp
    with s have full: "set res = {..<?n}" by (intro card_subset_eq) simp_all
    have raw: "readers_after_writers c res"
      unfolding readers_after_writers_iff
    proof (intro ballI impI)
      fix mi mo assume m: "mi \<in> set (input_mappings c)" "mo \<in> set (output_mappings c)"
        and dep: "depends_on c mi mo"
      have bi: "part_index mi < ?n" and ai: "part_index mo < ?n"
        using wf m by simp_all
      from dependency_is_edge[OF m dep bi ai]
      have "part_index mi \<in> set (?adj ! part_index mo)" .
      moreover have "part_index mi \<in> set res" using full bi by simp
      ultimately show "precedes (part_index mo) (part_index mi) res"
        using prec[rule_format, OF _ ai] by simp
    qed
    have o: "?order = res" using True by simp
    have "compute_eval_order c = Some (c\<lparr>eval_order := res\<rparr>)
           \<and> (0 < ?n \<longrightarrow> distinct res \<and> set res = {..<?n})
           \<and> ((\<exists>p. distinct p \<and> set p = {..<?n} \<and> readers_after_writers c p)
                 \<longrightarrow> readers_after_writers c res)
           \<and> (\<not> (\<exists>p. distinct p \<and> set p = {..<?n} \<and> readers_after_writers c p)
                 \<longrightarrow> res = [0..<?n])"
    proof (intro conjI impI)
      show "compute_eval_order c = Some (c\<lparr>eval_order := res\<rparr>)" using e o by simp
      show "distinct res" by (rule d)
      show "set res = {..<?n}" by (rule full)
      show "readers_after_writers c res" by (rule raw)
      assume "\<not> (\<exists>p. distinct p \<and> set p = {..<?n} \<and> readers_after_writers c p)"
      moreover have "\<exists>p. distinct p \<and> set p = {..<?n} \<and> readers_after_writers c p"
        using d full raw by (intro exI[where x = res] conjI)
      ultimately show "res = [0..<?n]" by (rule notE)
    qed
    then show ?thesis by (rule exI)
  next
    case short: False
    have none: "\<not> (\<exists>p. distinct p \<and> set p = {..<?n} \<and> readers_after_writers c p)"
    proof
      assume "\<exists>p. distinct p \<and> set p = {..<?n} \<and> readers_after_writers c p"
      then obtain p where p: "distinct p" "set p = {..<?n}" and rp: "readers_after_writers c p"
        by (elim exE conjE)
      from stuck_parts_no_order[OF inv short p edges_respected[OF rp]] show False .
    qed
    have o: "?order = [0..<?n]" using short by simp
    have "compute_eval_order c = Some (c\<lparr>eval_order := [0..<?n]\<rparr>)
           \<and> (0 < ?n \<longrightarrow> distinct [0..<?n] \<and> set [0..<?n] = {..<?n})
           \<and> ((\<exists>p. distinct p \<and> set p = {..<?n} \<and> readers_after_writers c p)
                 \<longrightarrow> readers_after_writers c [0..<?n])
           \<and> (\<not> (\<exists>p. distinct p \<and> set p = {..<?n} \<and> readers_after_writers c p)
                 \<longrightarrow> [0..<?n] = [0..<?n])"
    proof (intro conjI impI)
      show "compute_eval_order c = Some (c\<lparr>eval_order := [0..<?n]\<rparr>)" using e o by simp
      show "distinct [0..<?n]" by simp
      show "set [0..<?n] = {..<?n}" by (simp add: atLeast0LessThan)
      show "[0..<?n] = [0..<?n]" by (rule refl)
      assume "\<exists>p. distinct p \<and> set p = {..<?n} \<and> readers_after_writers c p"
      with none show "readers_after_writers c [0..<?n]" by (rule notE)
    qed
    then show ?thesis by (rule exI)
  qed
qed

text \<open>
  Claim C7 on \<open>Xor\<close> with its parts written output first: the part indices are below the
  five parts, there are eight input mappings, and the computed order is
  \<open>3, 4, 2, 1, 0\<close>, the two \<open>Not\<close> before the two \<open>And\<close> before the \<open>Or\<close>; it is not the
  source order, so it puts the readers of every internal wire after its writers.
\<close>

theorem compute_eval_order_sorts_witness:
  "list_all (\<lambda>m. part_index m < 5) (input_mappings hdl_xor_example @ output_mappings hdl_xor_example)
   \<and> length (sub_chips hdl_xor_example) = 5
   \<and> length (input_mappings hdl_xor_example) = 8
   \<and> compute_eval_order hdl_xor_example = Some (hdl_xor_example\<lparr>eval_order := [3, 4, 2, 1, 0]\<rparr>)
   \<and> readers_after_writers hdl_xor_example [3, 4, 2, 1, 0]"
proof -
  have n: "length (sub_chips hdl_xor_example) = 5"
    by (simp add: hdl_xor_example_def)
  have la: "list_all (\<lambda>m. part_index m < 5)
              (input_mappings hdl_xor_example @ output_mappings hdl_xor_example)"
    by (simp add: hdl_xor_example_def wire_mapping_def)
  then have wf: "\<forall>m \<in> set (input_mappings hdl_xor_example) \<union> set (output_mappings hdl_xor_example).
                   part_index m < length (sub_chips hdl_xor_example)"
    by (simp only: n list_all_iff set_append)
  have g: "build_graph 5 (part_inputs hdl_xor_example 5) (part_outputs hdl_xor_example 5)
             = ([[], [0], [0], [2], [1]], [2, 1, 1, 0, 0])"
    by code_simp
  have ec: "length (input_mappings hdl_xor_example) = 8"
    by (simp add: hdl_xor_example_def)
  then have few: "length (input_mappings hdl_xor_example) * length (sub_chips hdl_xor_example) < 2 ^ 64"
    by (simp add: n)
  have f: "filter (\<lambda>i. [2, 1, 1, 0, 0 :: 64 word] ! i = 0) [0..<5] = [3, 4]"
    by code_simp
  have k: "kahn_loop [[], [0], [0], [2], [1]] [2, 1, 1, 0, 0] [3, 4] [] = Some [3, 4, 2, 1, 0]"
    by (simp add: kahn_loop.simps relax_def)
  have e: "compute_eval_order hdl_xor_example
             = Some (hdl_xor_example\<lparr>eval_order := [3, 4, 2, 1, 0]\<rparr>)"
    using k by (simp add: compute_eval_order_def n g f)
  from compute_eval_order_sorts[OF wf few] obtain order where
    o: "compute_eval_order hdl_xor_example = Some (hdl_xor_example\<lparr>eval_order := order\<rparr>)"
    and sorted: "(\<exists>p. distinct p \<and> set p = {..<length (sub_chips hdl_xor_example)}
                      \<and> readers_after_writers hdl_xor_example p)
                 \<longrightarrow> readers_after_writers hdl_xor_example order"
    and fallback: "\<not> (\<exists>p. distinct p \<and> set p = {..<length (sub_chips hdl_xor_example)}
                          \<and> readers_after_writers hdl_xor_example p)
                 \<longrightarrow> order = [0..<length (sub_chips hdl_xor_example)]"
    by (elim exE conjE)
  have "eval_order (hdl_xor_example\<lparr>eval_order := order\<rparr>)
          = eval_order (hdl_xor_example\<lparr>eval_order := [3, 4, 2, 1, 0]\<rparr>)"
    using o e by simp
  then have order: "order = [3, 4, 2, 1, 0]" by simp
  have "order \<noteq> [0..<length (sub_chips hdl_xor_example)]"
    by (simp add: order n upt_rec)
  with fallback sorted have "readers_after_writers hdl_xor_example order" by blast
  with la n ec e show ?thesis by (simp only: order simp_thms)
qed

text \<open>
  Claim C7 as the specification states it fails. The dependencies of \<open>Bit\<close> form a cycle
  through its flip-flop: \<open>compute_eval_order\<close> returns the source order \<open>0, 1\<close>, where the
  \<open>Mux\<close> reads \<open>dffout\<close> before the \<open>DFF\<close> writes it, and there is no error that it could
  report. A wire that is a pin of the chip gives no dependency: the part that reads \<open>out\<close>
  stays before the part that writes it, though the other order has every reader after
  every writer.
\<close>

theorem cycle_keeps_source_order_counterexample:
  "compute_eval_order hdl_bit_example = Some (hdl_bit_example\<lparr>eval_order := [0, 1]\<rparr>)
   \<and> misordered hdl_bit_example [0, 1]
       = [(wire_mapping 0 ''a'' ''dffout'' True, wire_mapping 1 ''out'' ''dffout'' False)]
   \<and> \<not> readers_after_writers hdl_bit_example [0, 1]
   \<and> compute_eval_order hdl_output_read_example
       = Some (hdl_output_read_example\<lparr>eval_order := [0, 1]\<rparr>)
   \<and> spec_misordered hdl_output_read_example [0, 1]
       = [(wire_mapping 0 ''in'' ''out'' True, wire_mapping 1 ''out'' ''out'' False)]
   \<and> spec_misordered hdl_output_read_example [1, 0] = []"
proof -
  have n: "length (sub_chips hdl_bit_example) = 2"
    by (simp add: hdl_bit_example_def)
  have g: "build_graph 2 (part_inputs hdl_bit_example 2) (part_outputs hdl_bit_example 2)
             = ([[1], [0]], [1, 1])"
    by code_simp
  have f: "filter (\<lambda>i. [1, 1 :: 64 word] ! i = 0) [0..<2] = []"
    by code_simp
  have e: "compute_eval_order hdl_bit_example = Some (hdl_bit_example\<lparr>eval_order := [0, 1]\<rparr>)"
    by (simp add: compute_eval_order_def n g f kahn_loop.simps upt_rec)
  have m: "misordered hdl_bit_example [0, 1]
             = [(wire_mapping 0 ''a'' ''dffout'' True, wire_mapping 1 ''out'' ''dffout'' False)]"
    by code_simp
  then have r: "\<not> readers_after_writers hdl_bit_example [0, 1]"
    by (simp add: readers_after_writers_def)
  have n': "length (sub_chips hdl_output_read_example) = 2"
    by (simp add: hdl_output_read_example_def)
  have g': "build_graph 2 (part_inputs hdl_output_read_example 2)
              (part_outputs hdl_output_read_example 2) = ([[], []], [0, 0])"
    by code_simp
  have f': "filter (\<lambda>i. [0, 0 :: 64 word] ! i = 0) [0..<2] = [0, 1]"
    by code_simp
  have k': "kahn_loop [[], []] [0, 0] [0, 1] [] = Some [0, 1]"
    by (simp add: kahn_loop.simps)
  have e': "compute_eval_order hdl_output_read_example
              = Some (hdl_output_read_example\<lparr>eval_order := [0, 1]\<rparr>)"
    using k' by (simp add: compute_eval_order_def n' g' f')
  have s1: "spec_misordered hdl_output_read_example [0, 1]
              = [(wire_mapping 0 ''in'' ''out'' True, wire_mapping 1 ''out'' ''out'' False)]"
    by code_simp
  have s2: "spec_misordered hdl_output_read_example [1, 0] = []"
    by code_simp
  from e m r e' s1 s2 show ?thesis by (intro conjI)
qed

end
